theory Spec2Isabelle
  imports Complex_Main
begin

section \<open>Python values, dictionaries and errors\<close>

text \<open>
  The beacon builds its responses from JSON-like Python values. A dictionary is an
  association list in insertion order (the order \<open>dict.items()\<close> iterates in); a
  well-formed dictionary has pairwise distinct keys. A finite float is held as the
  rational number it denotes.
\<close>

datatype pyval =
    PNone
  | PBool bool
  | PInt int
  | PFloat rat
  | PStr string
  | PList "pyval list"
  | PDict "(string \<times> pyval) list"

datatype pyerror = KeyError string | IndexError | TypeError | AttributeError | ValueError

text \<open>\<open>r >>= f\<close> for results: an exception raised by \<open>r\<close> propagates.\<close>

definition bind_r :: "pyerror + 'a \<Rightarrow> ('a \<Rightarrow> pyerror + 'b) \<Rightarrow> pyerror + 'b" where
  "bind_r r f = (case r of Inl e \<Rightarrow> Inl e | Inr x \<Rightarrow> f x)"

text \<open>\<open>d[k] = v\<close>: an existing key keeps its position, a new key goes to the end.\<close>

fun dict_set :: "('k \<times> 'v) list \<Rightarrow> 'k \<Rightarrow> 'v \<Rightarrow> ('k \<times> 'v) list" where
  "dict_set [] k v = [(k, v)]"
| "dict_set ((k', v') # d) k v =
     (if k' = k then (k, v) # d else (k', v') # dict_set d k v)"

text \<open>\<open>v[k]\<close> with a string key: only a dictionary can be subscripted by a string.\<close>

definition getitem :: "pyval \<Rightarrow> string \<Rightarrow> pyerror + pyval" where
  "getitem v k =
     (case v of
        PDict d \<Rightarrow> (case map_of d k of Some x \<Rightarrow> Inr x | None \<Rightarrow> Inl (KeyError k))
      | _ \<Rightarrow> Inl TypeError)"

text \<open>\<open>k in v.keys()\<close>: only a dictionary has \<open>keys\<close>.\<close>

definition in_keys :: "string \<Rightarrow> pyval \<Rightarrow> pyerror + bool" where
  "in_keys k v =
     (case v of PDict d \<Rightarrow> Inr (k \<in> set (map fst d)) | _ \<Rightarrow> Inl AttributeError)"

text \<open>\<open>d.get(k)\<close> on a dictionary.\<close>

definition dict_get :: "(string \<times> pyval) list \<Rightarrow> string \<Rightarrow> pyval" where
  "dict_get d k = (case map_of d k of Some x \<Rightarrow> x | None \<Rightarrow> PNone)"

text \<open>Python truthiness, as used by \<open>not x\<close> and \<open>if x\<close>.\<close>

fun truthy :: "pyval \<Rightarrow> bool" where
  "truthy PNone = False"
| "truthy (PBool b) = b"
| "truthy (PInt i) = (i \<noteq> 0)"
| "truthy (PFloat q) = (q \<noteq> 0)"
| "truthy (PStr s) = (s \<noteq> [])"
| "truthy (PList xs) = (xs \<noteq> [])"
| "truthy (PDict d) = (d \<noteq> [])"

text \<open>\<open>v in xs\<close> for a list \<open>xs\<close> of strings: only an equal string is a member.\<close>

fun in_strings :: "pyval \<Rightarrow> string list \<Rightarrow> bool" where
  "in_strings (PStr s) xs = (s \<in> set xs)"
| "in_strings _ xs = False"

text \<open>\<open>isinstance(v, dict) or isinstance(v, list)\<close>.\<close>

fun is_container :: "pyval \<Rightarrow> bool" where
  "is_container (PDict d) = True"
| "is_container (PList xs) = True"
| "is_container _ = False"

section \<open>Filtering a response by access level\<close>

text \<open>
  \<open>filter_response(response, access_levels_dict, accessible_datasets, user_levels,
  field2access, parent_key=None)\<close>. The access levels dictionary and the translation
  table are arguments; \<open>parent_key\<close> is \<open>None\<close> or a string, and \<open>if parent_key\<close>
  also fails for the empty string.
\<close>

definition has_parent :: "string option \<Rightarrow> bool" where
  "has_parent parent_key = (case parent_key of None \<Rightarrow> False | Some s \<Rightarrow> s \<noteq> [])"

text \<open>\<open>field2access[key] if key in field2access.keys() else key\<close>\<close>

definition translate :: "(string \<times> string) list \<Rightarrow> string \<Rightarrow> string" where
  "translate field2access key =
     (case map_of field2access key of Some t \<Rightarrow> t | None \<Rightarrow> key)"

text \<open>\<open>access_levels_dict[parent_key] if parent_key else access_levels_dict\<close>\<close>

definition specific_scope :: "(string \<times> pyval) list \<Rightarrow> string option \<Rightarrow> pyerror + pyval" where
  "specific_scope access_levels_dict parent_key =
     (if has_parent parent_key then getitem (PDict access_levels_dict) (the parent_key)
      else Inr (PDict access_levels_dict))"

text \<open>
  What the body of the loop over \<open>response.items()\<close> decides for one field, before any
  recursion: store the value as it is, leave the field out, or store the filtered value
  (filtered with the translated key as the new parent key).
\<close>

datatype action = Keep | Omit | Descend string

definition field_action ::
  "(string \<times> pyval) list \<Rightarrow> string list \<Rightarrow> (string \<times> string) list \<Rightarrow> string option
     \<Rightarrow> string \<Rightarrow> pyval \<Rightarrow> pyerror + action" where
  "field_action access_levels_dict user_levels field2access parent_key key val =
     (let translated_key = translate field2access key in
      bind_r (specific_scope access_levels_dict parent_key) (\<lambda>specific_access_levels_dict.
      bind_r (if translated_key \<in> set (map fst access_levels_dict) then Inr False
              else bind_r (in_keys translated_key specific_access_levels_dict)
                     (\<lambda>b. Inr (\<not> b))) (\<lambda>unmodelled.
      if unmodelled then Inr Keep
      else if is_container val \<and> translated_key \<in> set (map fst access_levels_dict) then
        bind_r (bind_r (getitem (PDict access_levels_dict) translated_key)
                  (\<lambda>scope. getitem scope ''accessLevelSummary'')) (\<lambda>summary.
        let self_permission = in_strings summary user_levels in
        bind_r (if has_parent parent_key then
                  bind_r (bind_r (getitem (PDict access_levels_dict) (the parent_key))
                            (\<lambda>scope. getitem scope key))
                    (\<lambda>level. Inr (in_strings level user_levels))
                else Inr True) (\<lambda>parent_permission.
        Inr (if self_permission \<and> parent_permission then Descend translated_key else Omit)))
      else
        bind_r (if has_parent parent_key then
                  bind_r (getitem (PDict access_levels_dict) (the parent_key))
                    (\<lambda>scope. getitem scope translated_key)
                else getitem (PDict access_levels_dict) translated_key) (\<lambda>valid_level.
        Inr (if in_strings valid_level user_levels then Keep else Omit)))))"

text \<open>
  The test of the loop over a list: the element is a dictionary, and
  \<open>not datasetId or datasetId in accessible_datasets\<close> holds for
  \<open>datasetId = element.get("datasetId")\<close>.
\<close>

fun appended :: "string list \<Rightarrow> pyval \<Rightarrow> bool" where
  "appended accessible_datasets (PDict d) =
     (let datasetId = dict_get d ''datasetId'' in
      \<not> truthy datasetId \<or> in_strings datasetId accessible_datasets)"
| "appended accessible_datasets _ = False"

text \<open>
  The function itself, by recursion on the response: \<open>filter_items\<close> is the loop over
  \<open>response.items()\<close> with \<open>final_dict\<close> as its state, \<open>filter_item\<close> is one round
  of that loop, and \<open>filter_elements\<close> is the loop over a list, which builds
  \<open>filtered\<close>. Anything that is neither a dictionary nor a list gives the empty
  \<open>final_dict\<close>.
\<close>

primrec filter_response ::
  "pyval \<Rightarrow> (string \<times> pyval) list \<Rightarrow> string list \<Rightarrow> string list
     \<Rightarrow> (string \<times> string) list \<Rightarrow> string option \<Rightarrow> pyerror + pyval"
and filter_items ::
  "(string \<times> pyval) list \<Rightarrow> (string \<times> pyval) list \<Rightarrow> (string \<times> pyval) list
     \<Rightarrow> string list \<Rightarrow> string list \<Rightarrow> (string \<times> string) list \<Rightarrow> string option
     \<Rightarrow> pyerror + (string \<times> pyval) list"
and filter_item ::
  "string \<times> pyval \<Rightarrow> (string \<times> pyval) list \<Rightarrow> (string \<times> pyval) list
     \<Rightarrow> string list \<Rightarrow> string list \<Rightarrow> (string \<times> string) list \<Rightarrow> string option
     \<Rightarrow> pyerror + (string \<times> pyval) list"
and filter_elements ::
  "pyval list \<Rightarrow> (string \<times> pyval) list \<Rightarrow> string list \<Rightarrow> string list
     \<Rightarrow> (string \<times> string) list \<Rightarrow> string option \<Rightarrow> pyerror + pyval list"
where
  "filter_response (PDict items) A D U F p =
     (case filter_items items [] A D U F p of
        Inl e \<Rightarrow> Inl e | Inr final_dict \<Rightarrow> Inr (PDict final_dict))"
| "filter_response (PList elements) A D U F p =
     (case filter_elements elements A D U F p of
        Inl e \<Rightarrow> Inl e | Inr filtered \<Rightarrow> Inr (PList filtered))"
| "filter_response PNone A D U F p = Inr (PDict [])"
| "filter_response (PBool b) A D U F p = Inr (PDict [])"
| "filter_response (PInt i) A D U F p = Inr (PDict [])"
| "filter_response (PFloat q) A D U F p = Inr (PDict [])"
| "filter_response (PStr s) A D U F p = Inr (PDict [])"
| "filter_items [] final_dict A D U F p = Inr final_dict"
| "filter_items (item # rest) final_dict A D U F p =
     (case filter_item item final_dict A D U F p of
        Inl e \<Rightarrow> Inl e
      | Inr final_dict' \<Rightarrow> filter_items rest final_dict' A D U F p)"
| "filter_item (key, val) final_dict A D U F p =
     (case field_action A U F p key val of
        Inl e \<Rightarrow> Inl e
      | Inr Keep \<Rightarrow> Inr (dict_set final_dict key val)
      | Inr Omit \<Rightarrow> Inr final_dict
      | Inr (Descend translated_key) \<Rightarrow>
          (case filter_response val A D U F (Some translated_key) of
             Inl e \<Rightarrow> Inl e
           | Inr val' \<Rightarrow> Inr (dict_set final_dict key val')))"
| "filter_elements [] A D U F p = Inr []"
| "filter_elements (element # rest) A D U F p =
     (if appended D element then
        (case filter_response element A D U F p of
           Inl e \<Rightarrow> Inl e
         | Inr element' \<Rightarrow>
             (case filter_elements rest A D U F p of
                Inl e \<Rightarrow> Inl e
              | Inr filtered \<Rightarrow> Inr (element' # filtered)))
      else filter_elements rest A D U F p)"

section \<open>Access resolution\<close>

text \<open>
  \<open>access_resolution(request, token, host, public_data, registered_data,
  controlled_data)\<close>. The request and the host only go into the exceptions raised, so
  they are left out. The token is a dictionary with the entries read here:
  \<open>permissions\<close> is \<open>None\<close> when the token has no such key. The function returns
  \<open>list(access)\<close>, a list in no particular order, which is held as the set.
\<close>

datatype access_error = BeaconUnauthorised | BeaconForbidden

record 'a token =
  bona_fide_status :: bool
  authenticated :: bool
  permissions :: "'a list option"

text \<open>\<open>'permissions' in token and token['permissions']\<close>\<close>

definition token_permissions_given :: "'a token \<Rightarrow> bool" where
  "token_permissions_given token =
     (case permissions token of None \<Rightarrow> False | Some ps \<Rightarrow> ps \<noteq> [])"

text \<open>
  \<open>BeaconUnauthorised\<close> if \<open>token["authenticated"] is False\<close>, and
  \<open>BeaconForbidden\<close> otherwise.
\<close>

definition deny :: "'a token \<Rightarrow> access_error" where
  "deny token = (if \<not> authenticated token then BeaconUnauthorised else BeaconForbidden)"

definition access_resolution ::
  "'a token \<Rightarrow> 'a list \<Rightarrow> 'a list \<Rightarrow> 'a list \<Rightarrow> access_error + (string list \<times> 'a set)" where
  "access_resolution token public_data registered_data controlled_data =
     (let permissions0 = (if public_data \<noteq> [] then [''PUBLIC''] else []);
          access0 = set public_data
      in
      case (if registered_data \<noteq> [] \<and> bona_fide_status token then
              Inr (permissions0 @ [''REGISTERED''], access0 \<union> set registered_data)
            else if registered_data \<noteq> [] \<and> public_data = [] then Inl (deny token)
            else Inr (permissions0, access0)) of
        Inl e \<Rightarrow> Inl e
      | Inr (permissions1, access1) \<Rightarrow>
          if controlled_data \<noteq> [] \<and> token_permissions_given token then
            (let controlled_access = set controlled_data \<inter> set (the (permissions token));
                 access2 = access1 \<union> controlled_access
             in Inr (if controlled_access \<noteq> {} then permissions1 @ [''CONTROLLED'']
                     else permissions1, access2))
          else if controlled_data \<noteq> [] \<and> \<not> (public_data \<noteq> [] \<or> registered_data \<noteq> []) then
            Inl (deny token)
          else Inr (permissions1, access1))"

section \<open>Parsing the filters of a request\<close>

text \<open>\<open>xs[i]\<close> for a non-negative index: \<open>IndexError\<close> out of range.\<close>

definition index :: "'a list \<Rightarrow> nat \<Rightarrow> pyerror + 'a" where
  "index xs i = (if i < length xs then Inr (xs ! i) else Inl IndexError)"

text \<open>
  \<open>s.split(sep)\<close> for a non-empty separator: the pieces between the occurrences of
  \<open>sep\<close>, found from left to right without overlap. \<open>skip\<close> counts the characters of
  a separator just found that are still to be passed over. (Python raises
  \<open>ValueError\<close> for an empty separator; every separator here is a non-empty literal.)
\<close>

fun split_aux :: "string \<Rightarrow> nat \<Rightarrow> string \<Rightarrow> string \<Rightarrow> string list" where
  "split_aux sep skip piece [] = [piece]"
| "split_aux sep skip piece (c # cs) =
     (if 0 < skip then split_aux sep (skip - 1) piece cs
      else if take (length sep) (c # cs) = sep then
        piece # split_aux sep (length sep - 1) [] cs
      else split_aux sep 0 (piece @ [c]) cs)"

definition py_split :: "string \<Rightarrow> string \<Rightarrow> string list" where
  "py_split s sep = split_aux sep 0 [] s"

text \<open>\<open>sub in s\<close> for strings.\<close>

fun contains :: "string \<Rightarrow> string \<Rightarrow> bool" where
  "contains sub [] = (sub = [])"
| "contains sub (c # cs) = (take (length sub) (c # cs) = sub \<or> contains sub cs)"

definition operators :: "string list" where
  "operators = [''>='', ''<='', ''='', ''>'', ''<'']"

text \<open>
  The loop over the operators, given \<open>filter_elements\<close> (here \<open>elements\<close>): it
  stops at the first operator that occurs in \<open>filter_elements[1]\<close> and gives the
  term, the operator and the value, or runs through and gives nothing.
\<close>

fun scan_operators ::
  "string list \<Rightarrow> string list \<Rightarrow> pyerror + (string \<times> string \<times> string) option" where
  "scan_operators [] elements = Inr None"
| "scan_operators (operator # rest) elements =
     bind_r (index elements 1) (\<lambda>remainder.
       if contains operator remainder then
         bind_r (index (py_split remainder operator) 0) (\<lambda>term.
         bind_r (index (py_split remainder operator) 1) (\<lambda>val.
         Inr (Some (term, operator, val))))
       else scan_operators rest elements)"

text \<open>One round of the loop over the filters: \<open>final_elements\<close> for one filter.\<close>

definition parse_filter :: "string \<Rightarrow> pyerror + string list" where
  "parse_filter unprocessed_filter =
     (let elements = py_split unprocessed_filter '':'' in
      bind_r (index elements 0) (\<lambda>ontology.
      bind_r (scan_operators operators elements) (\<lambda>found.
      case found of
        Some (term, operator, val) \<Rightarrow> Inr [ontology, term, operator, val]
      | None \<Rightarrow> bind_r (index elements 1) (\<lambda>term. Inr [ontology, term]))))"

fun parse_filters_request :: "string list \<Rightarrow> pyerror + string list list" where
  "parse_filters_request [] = Inr []"
| "parse_filters_request (unprocessed_filter # rest) =
     bind_r (parse_filter unprocessed_filter) (\<lambda>final_elements.
     bind_r (parse_filters_request rest) (\<lambda>list_filters.
     Inr (final_elements # list_filters)))"

text \<open>A string without any of the characters that the comparison operators are made of.\<close>

definition operator_free :: "string \<Rightarrow> bool" where
  "operator_free s = (set s \<inter> {CHR ''<'', CHR ''='', CHR ''>''} = {})"

section \<open>Reconciling hit and miss datasets\<close>

text \<open>\<open>[d for d in datasets if d['exists'] is b]\<close>\<close>

fun exists_is :: "bool \<Rightarrow> pyval list \<Rightarrow> pyerror + pyval list" where
  "exists_is b [] = Inr []"
| "exists_is b (d # datasets) =
     bind_r (getitem d ''exists'') (\<lambda>e.
     bind_r (exists_is b datasets) (\<lambda>rest.
     Inr (if e = PBool b then d # rest else rest)))"

text \<open>
  \<open>filter_exists(include_dataset, datasets)\<close>; falling off the end of the function
  returns \<open>None\<close>.
\<close>

definition filter_exists :: "string \<Rightarrow> pyval list \<Rightarrow> pyerror + pyval" where
  "filter_exists include_dataset datasets =
     (if include_dataset = ''ALL'' then Inr (PList datasets)
      else if include_dataset = ''NONE'' then Inr (PList [])
      else if include_dataset = ''HIT'' then
        bind_r (exists_is True datasets) (\<lambda>hits. Inr (PList hits))
      else if include_dataset = ''MISS'' then
        bind_r (exists_is False datasets) (\<lambda>misses. Inr (PList misses))
      else Inr PNone)"

text \<open>\<open>d.pop(k)\<close>: the value, and the dictionary without the key.\<close>

definition dict_pop ::
  "(string \<times> 'v) list \<Rightarrow> string \<Rightarrow> pyerror + ('v \<times> (string \<times> 'v) list)" where
  "dict_pop d k =
     (case map_of d k of
        None \<Rightarrow> Inl (KeyError k)
      | Some v \<Rightarrow> Inr (v, filter (\<lambda>entry. fst entry \<noteq> k) d))"

text \<open>
  What the reconciliation gets from outside: the formatting of a value inside an
  f-string, \<open>float(round(x, 4))\<close>, the row of \<open>beacon_dataset\<close> for a dataset id
  (\<open>extra_record\<close>), the rows of \<open>beacon_dataset\<close> for the missing ids, and
  \<open>variantAnnotations\<close>, which asks two web services.
\<close>

record collaborators =
  format :: "pyval \<Rightarrow> string"
  round4 :: "pyval \<Rightarrow> pyval"
  dataset_row :: "pyval \<Rightarrow> pyval"
  missing_rows :: "int list \<Rightarrow> (string \<times> pyval) list list"
  variantAnnotations :: "pyval \<Rightarrow> pyval \<times> pyval \<times> pyval"

definition datasetHandover :: "collaborators \<Rightarrow> pyval \<Rightarrow> pyval" where
  "datasetHandover env dataset_name =
     PList [PDict
       [(''handoverType'', PDict [(''id'', PStr ''CUSTOM''), (''label'', PStr ''Dataset info'')]),
        (''note'', PStr ''Dataset information and DAC contact details in EGA Website''),
        (''url'', PStr (''https://ega-archive.org/datasets/'' @ format env dataset_name))]]"

text \<open>\<open>variantId[2:]\<close>\<close>

definition slice_from_2 :: "pyval \<Rightarrow> pyerror + pyval" where
  "slice_from_2 v =
     (case v of
        PStr s \<Rightarrow> Inr (PStr (drop 2 s))
      | PList xs \<Rightarrow> Inr (PList (drop 2 xs))
      | _ \<Rightarrow> Inl TypeError)"

definition snp_resultsHandover :: "collaborators \<Rightarrow> pyval \<Rightarrow> pyerror + pyval" where
  "snp_resultsHandover env variantId =
     bind_r (slice_from_2 variantId) (\<lambda>tail.
     Inr (PList
       [PDict
          [(''handoverType'', PDict [(''id'', PStr ''data:1106''), (''label'', PStr ''dbSNP ID'')]),
           (''note'', PStr ''Link to dbSNP database''),
           (''url'', PStr (''https://www.ncbi.nlm.nih.gov/snp/?term='' @ format env variantId))],
        PDict
          [(''handoverType'', PDict [(''id'', PStr ''data:1106''), (''label'', PStr ''dbSNP ID'')]),
           (''note'', PStr ''Link to dbSNP API''),
           (''url'', PStr (''https://api.ncbi.nlm.nih.gov/variation/v0/beta/refsnp/''
                           @ format env tail))]]))"

text \<open>The loop \<open>for dispensable in [...]: response.pop(dispensable)\<close>.\<close>

fun pop_keys :: "(string \<times> pyval) list \<Rightarrow> string list \<Rightarrow> pyerror + (string \<times> pyval) list" where
  "pop_keys response [] = Inr response"
| "pop_keys response (dispensable # rest) =
     bind_r (dict_pop response dispensable) (\<lambda>(v, response'). pop_keys response' rest)"

text \<open>
  \<open>response[new] = 0 if response.get(old) is None else f(response.pop(old))\<close>, the
  shape of three assignments of \<open>transform_record\<close>; it gives the new value and the
  dictionary after the \<open>pop\<close>.
\<close>

definition pop_or_zero ::
  "(pyval \<Rightarrow> pyval) \<Rightarrow> (string \<times> pyval) list \<Rightarrow> string \<Rightarrow> pyval \<times> (string \<times> pyval) list" where
  "pop_or_zero f response old =
     (if dict_get response old = PNone then (PInt 0, response)
      else (f (dict_get response old), filter (\<lambda>entry. fst entry \<noteq> old) response))"

text \<open>\<open>transform_record(db_pool, record)\<close>; \<open>row\<close> is \<open>dict(record)\<close>.\<close>

definition transform_record :: "collaborators \<Rightarrow> (string \<times> pyval) list \<Rightarrow> pyerror + pyval" where
  "transform_record env row =
     (let extra_record = dataset_row env (dict_get row ''dataset_id'') in
      bind_r (pop_keys row [''id'', ''variant_id'', ''variant_composite_id'', ''chromosome'',
                ''reference'', ''alternate'', ''start'', ''end'', ''variant_type'']) (\<lambda>r0.
      bind_r (getitem extra_record ''stable_id'') (\<lambda>dataset_name.
      let r1 = dict_set r0 ''datasetId'' dataset_name in
      bind_r (dict_pop r1 ''dataset_id'') (\<lambda>(dataset_id, r2).
      let r3 = dict_set r2 ''internalId'' dataset_id;
          r4 = dict_set r3 ''exists'' (PBool True) in
      bind_r (dict_pop r4 ''variant_cnt'') (\<lambda>(variant_cnt, r5).
      let r6 = dict_set r5 ''variantCount'' variant_cnt in
      bind_r (dict_pop r6 ''call_cnt'') (\<lambda>(call_cnt, r7).
      let r8 = dict_set r7 ''callCount'' call_cnt in
      bind_r (dict_pop r8 ''sample_cnt'') (\<lambda>(sample_cnt, r9).
      let r10 = dict_set r9 ''sampleCount'' sample_cnt;
          (frequency, r11) = pop_or_zero (round4 env) r10 ''frequency'';
          r12 = dict_set r11 ''frequency'' frequency;
          (num_variants, r13) = pop_or_zero (\<lambda>v. v) r12 ''num_variants'';
          r14 = dict_set r13 ''numVariants'' num_variants in
      bind_r (getitem extra_record ''access_type'') (\<lambda>access_type.
      let (matching, r15) = pop_or_zero (\<lambda>v. v) r14 ''matching_sample_cnt'';
          r16 = dict_set r15 ''info''
                  (PDict [(''accessType'', access_type), (''matchingSampleCount'', matching)]);
          r17 = dict_set r16 ''datasetHandover'' (datasetHandover env dataset_name)
      in Inr (PDict r17)))))))))"

text \<open>\<open>transform_misses(record)\<close>; \<open>row\<close> is \<open>dict(record)\<close>.\<close>

definition transform_misses :: "collaborators \<Rightarrow> (string \<times> pyval) list \<Rightarrow> pyval" where
  "transform_misses env row =
     (let dataset_name = dict_get row ''stableId'' in
      PDict [(''datasetId'', dataset_name),
             (''internalId'', dict_get row ''datasetId''),
             (''exists'', PBool False),
             (''variantCount'', PInt 0),
             (''callCount'', PInt 0),
             (''sampleCount'', PInt 0),
             (''frequency'', PInt 0),
             (''numVariants'', PInt 0),
             (''info'', PDict [(''accessType'', dict_get row ''accessType''),
                               (''matchingSampleCount'', PInt 0)]),
             (''datasetHandover'', datasetHandover env dataset_name)])"

text \<open>
  \<open>fetch_resulting_datasets(..., misses=True, accessible_missing=...)\<close>: no query for
  an empty list of ids.
\<close>

definition fetch_misses :: "collaborators \<Rightarrow> int list \<Rightarrow> pyval list" where
  "fetch_misses env accessible_missing =
     (if accessible_missing \<noteq> [] then
        map (transform_misses env) (missing_rows env accessible_missing)
      else [])"

text \<open>
  An entry of \<open>variants_dict\<close>, which is keyed by the \<open>variant_composite_id\<close> of the
  records.
\<close>

record variant_entry =
  variantDetails :: "(string \<times> pyval) list"
  datasetAlleleResponses :: "pyval list"

text \<open>The first loop of \<open>get_datasets\<close>: the hit records, separated by variant.\<close>

fun group_records ::
  "collaborators \<Rightarrow> (pyval \<times> variant_entry) list \<Rightarrow> (string \<times> pyval) list list
     \<Rightarrow> pyerror + (pyval \<times> variant_entry) list" where
  "group_records env variants_dict [] = Inr variants_dict"
| "group_records env variants_dict (row # rest) =
     (let variant_identifier = dict_get row ''variant_composite_id'' in
      bind_r (transform_record env row) (\<lambda>response.
      case map_of variants_dict variant_identifier of
        None \<Rightarrow>
          group_records env
            (dict_set variants_dict variant_identifier
               \<lparr>variantDetails =
                  [(''variantId'', dict_get row ''variant_id''),
                   (''chromosome'', dict_get row ''chromosome''),
                   (''referenceBases'', dict_get row ''reference''),
                   (''alternateBases'', dict_get row ''alternate''),
                   (''variantType'', dict_get row ''variant_type''),
                   (''start'', dict_get row ''start''),
                   (''end'', dict_get row ''end'')],
                datasetAlleleResponses = [response]\<rparr>) rest
      | Some entry \<Rightarrow>
          group_records env
            (dict_set variants_dict variant_identifier
               (entry\<lparr>datasetAlleleResponses := datasetAlleleResponses entry @ [response]\<rparr>))
            rest))"

text \<open>\<open>[record["internalId"] for record in ...]\<close>\<close>

fun internal_ids :: "pyval list \<Rightarrow> pyerror + pyval list" where
  "internal_ids [] = Inr []"
| "internal_ids (record # rest) =
     bind_r (getitem record ''internalId'') (\<lambda>i.
     bind_r (internal_ids rest) (\<lambda>more. Inr (i # more)))"

text \<open>
  \<open>x == v\<close> for an integer \<open>x\<close>: Python compares numbers by value, with \<open>True\<close> as
  1 and \<open>False\<close> as 0, and an integer equals nothing else.
\<close>

fun int_eq :: "int \<Rightarrow> pyval \<Rightarrow> bool" where
  "int_eq x (PInt i) = (x = i)"
| "int_eq x (PBool b) = (x = (if b then 1 else 0))"
| "int_eq x (PFloat q) = (of_int x = q)"
| "int_eq x _ = False"

text \<open>\<open>x in vs\<close> for an integer \<open>x\<close> and a list \<open>vs\<close>.\<close>

definition int_in :: "int \<Rightarrow> pyval list \<Rightarrow> bool" where
  "int_in x vs = list_ex (int_eq x) vs"

text \<open>
  \<open>int(s)\<close> for a string: white space around the number is dropped, a sign may come
  first, and the digits may be separated by single underscores; anything else is a
  \<open>ValueError\<close>. A character stands for the code point of its number, so the white
  space is that of Python below 256 and the digits are \<open>0\<close> to \<open>9\<close>.
\<close>

definition is_space :: "char \<Rightarrow> bool" where
  "is_space c = (of_char c \<in> set [9, 10, 11, 12, 13, 28, 29, 30, 31, 32, 133, 160 :: nat])"

definition is_digit :: "char \<Rightarrow> bool" where
  "is_digit c = (48 \<le> (of_char c :: nat) \<and> (of_char c :: nat) \<le> 57)"

definition strip :: "string \<Rightarrow> string" where
  "strip s = rev (dropWhile is_space (rev (dropWhile is_space s)))"

fun well_separated :: "string \<Rightarrow> bool" where
  "well_separated [] = False"
| "well_separated [c] = is_digit c"
| "well_separated (c # d # cs) =
     (if is_digit c then well_separated (d # cs)
      else c = CHR ''_'' \<and> is_digit d \<and> well_separated (d # cs))"

definition digits_value :: "string \<Rightarrow> int" where
  "digits_value ds = foldl (\<lambda>n c. 10 * n + (int (of_char c) - 48)) 0 (filter is_digit ds)"

definition py_int :: "string \<Rightarrow> pyerror + int" where
  "py_int s =
     (let t = strip s;
          (negative, body) =
            (case t of
               [] \<Rightarrow> (False, [])
             | c # cs \<Rightarrow>
                 if c = CHR ''-'' then (True, cs)
                 else if c = CHR ''+'' then (False, cs)
                 else (False, t))
      in if body \<noteq> [] \<and> is_digit (hd body) \<and> well_separated body
         then Inr (if negative then - digits_value body else digits_value body)
         else Inl ValueError)"

text \<open>\<open>list(map(int, pieces))\<close>\<close>

fun map_int :: "string list \<Rightarrow> pyerror + int list" where
  "map_int [] = Inr []"
| "map_int (piece # rest) =
     bind_r (py_int piece) (\<lambda>x. bind_r (map_int rest) (\<lambda>xs. Inr (x # xs)))"

text \<open>
  One round of the second loop, for one variant; \<open>list_all'\<close> stands for the
  variable \<open>list_all\<close>.
\<close>

definition add_misses :: "collaborators \<Rightarrow> string \<Rightarrow> variant_entry \<Rightarrow> pyerror + variant_entry" where
  "add_misses env dataset_ids entry =
     bind_r (internal_ids (datasetAlleleResponses entry)) (\<lambda>list_hits.
     bind_r (map_int (py_split dataset_ids '','')) (\<lambda>list_all'.
     let accessible_missing = filter (\<lambda>x. \<not> int_in x list_hits) list_all';
         miss_datasets = fetch_misses env accessible_missing
     in Inr (entry\<lparr>datasetAlleleResponses := datasetAlleleResponses entry @ miss_datasets\<rparr>)))"

fun add_all_misses ::
  "collaborators \<Rightarrow> string \<Rightarrow> (pyval \<times> variant_entry) list
     \<Rightarrow> pyerror + (pyval \<times> variant_entry) list" where
  "add_all_misses env dataset_ids [] = Inr []"
| "add_all_misses env dataset_ids ((variant, entry) # rest) =
     bind_r (add_misses env dataset_ids entry) (\<lambda>entry'.
     bind_r (add_all_misses env dataset_ids rest) (\<lambda>rest'. Inr ((variant, entry') # rest')))"

text \<open>One round of the third loop: the element of the response for one variant.\<close>

definition variant_element :: "collaborators \<Rightarrow> string \<Rightarrow> variant_entry \<Rightarrow> pyerror + pyval" where
  "variant_element env include_dataset entry =
     (let (rsID, cellBase_dict, dbSNP_dict) =
            variantAnnotations env (PDict (variantDetails entry));
          details = (if truthy rsID then dict_set (variantDetails entry) ''variantId'' rsID
                     else variantDetails entry)
      in
      bind_r (filter_exists include_dataset (datasetAlleleResponses entry)) (\<lambda>responses.
      bind_r (if truthy rsID then snp_resultsHandover env rsID else Inr (PStr [])) (\<lambda>handover.
      Inr (PDict
        [(''variantDetails'', PDict details),
         (''datasetAlleleResponses'', responses),
         (''variantAnnotations'', PDict [(''cellBase'', cellBase_dict), (''dbSNP'', dbSNP_dict)]),
         (''variantHandover'', handover),
         (''info'', PDict [])]))))"

fun build_response ::
  "collaborators \<Rightarrow> string \<Rightarrow> (pyval \<times> variant_entry) list \<Rightarrow> pyerror + pyval list" where
  "build_response env include_dataset [] = Inr []"
| "build_response env include_dataset ((variant, entry) # rest) =
     bind_r (variant_element env include_dataset entry) (\<lambda>final_variantsFound_element.
     bind_r (build_response env include_dataset rest) (\<lambda>response.
     Inr (final_variantsFound_element # response)))"

text \<open>
  \<open>get_datasets(db_pool, query_parameters, include_dataset)\<close>, given the hit records
  that the query returns (\<open>all_datasets\<close>) and the string \<open>dataset_ids\<close>, which is
  \<open>query_parameters[-2]\<close>.
\<close>

definition get_datasets ::
  "collaborators \<Rightarrow> (string \<times> pyval) list list \<Rightarrow> string \<Rightarrow> string \<Rightarrow> pyerror + pyval list" where
  "get_datasets env all_datasets dataset_ids include_dataset =
     bind_r (group_records env [] all_datasets) (\<lambda>variants_dict.
     bind_r (if include_dataset \<in> set [''ALL'', ''MISS'']
             then add_all_misses env dataset_ids variants_dict
             else Inr variants_dict) (\<lambda>variants_dict'.
     build_response env include_dataset variants_dict'))"

text \<open>\<open>for dataset in v\<close>: what iterating over a value yields.\<close>

definition iterate :: "pyval \<Rightarrow> pyerror + pyval list" where
  "iterate v =
     (case v of
        PList xs \<Rightarrow> Inr xs
      | PDict d \<Rightarrow> Inr (map (\<lambda>entry. PStr (fst entry)) d)
      | PStr s \<Rightarrow> Inr (map (\<lambda>c. PStr [c]) s)
      | _ \<Rightarrow> Inl TypeError)"

fun exists_of_each :: "pyval list \<Rightarrow> pyerror + pyval list" where
  "exists_of_each [] = Inr []"
| "exists_of_each (dataset # rest) =
     bind_r (getitem dataset ''exists'') (\<lambda>e.
     bind_r (exists_of_each rest) (\<lambda>more. Inr (e # more)))"

text \<open>
  \<open>[dataset['exists'] for variant in variantsFound
     for dataset in variant["datasetAlleleResponses"]]\<close>
\<close>

fun exists_values :: "pyval list \<Rightarrow> pyerror + pyval list" where
  "exists_values [] = Inr []"
| "exists_values (variant # rest) =
     bind_r (getitem variant ''datasetAlleleResponses'') (\<lambda>responses.
     bind_r (iterate responses) (\<lambda>datasets.
     bind_r (exists_of_each datasets) (\<lambda>flags.
     bind_r (exists_values rest) (\<lambda>more. Inr (flags @ more)))))"

text \<open>
  The dictionary \<open>beacon_response\<close> that \<open>region_request_handler\<close> builds from
  \<open>variantsFound\<close>, before it is filtered by access level; the beacon id, the API
  version and the processed request are given.
\<close>

definition beacon_response :: "pyval \<Rightarrow> pyval \<Rightarrow> pyval \<Rightarrow> pyval list \<Rightarrow> pyerror + pyval" where
  "beacon_response beaconId apiVersion processed_request variantsFound =
     bind_r (exists_values variantsFound) (\<lambda>flags.
     Inr (PDict
       [(''beaconId'', beaconId),
        (''apiVersion'', apiVersion),
        (''exists'', PBool (list_ex truthy flags)),
        (''request'', processed_request),
        (''variantsFound'', PList variantsFound),
        (''info'', PNone),
        (''resultsHandover'', PNone),
        (''beaconHandover'', PList [PDict
           [(''handoverType'', PDict [(''id'', PStr ''CUSTOM''),
                                      (''label'', PStr ''Organization contact'')]),
            (''note'', PStr ''Organization contact details maintaining this Beacon''),
            (''url'', PStr ''mailto:beacon.ega@crg.eu'')]])]))"

section \<open>Notions used to state the properties\<close>

text \<open>
  A policy key is absent from the current policy scope when it is neither a key of the
  access levels dictionary nor a key of the dictionary that
  \<open>specific_access_levels_dict\<close> resolves to.
\<close>

definition unmodelled :: "(string \<times> pyval) list \<Rightarrow> string option \<Rightarrow> string \<Rightarrow> bool" where
  "unmodelled A p tk =
     (tk \<notin> set (map fst A) \<and>
      (case specific_scope A p of
         Inr (PDict scope) \<Rightarrow> tk \<notin> set (map fst scope)
       | _ \<Rightarrow> False))"

text \<open>
  What one round of the loop does to \<open>final_dict[key]\<close>, as a relation between the
  entry before and after the round.
\<close>

definition stored ::
  "(string \<times> pyval) list \<Rightarrow> string list \<Rightarrow> string list \<Rightarrow> (string \<times> string) list
     \<Rightarrow> string option \<Rightarrow> string \<Rightarrow> pyval \<Rightarrow> pyval option \<Rightarrow> pyval option \<Rightarrow> bool" where
  "stored A D U F p key val before after =
     (case field_action A U F p key val of
        Inl e \<Rightarrow> False
      | Inr Keep \<Rightarrow> after = Some val
      | Inr Omit \<Rightarrow> after = before
      | Inr (Descend tk) \<Rightarrow>
          (\<exists>val'. filter_response val A D U F (Some tk) = Inr val' \<and> after = Some val'))"

text \<open>\<open>access_levels_dict[translated_key]["accessLevelSummary"]\<close>\<close>

definition summary_tier :: "(string \<times> pyval) list \<Rightarrow> string \<Rightarrow> pyerror + pyval" where
  "summary_tier A tk =
     bind_r (getitem (PDict A) tk) (\<lambda>scope. getitem scope ''accessLevelSummary'')"

text \<open>\<open>access_levels_dict[parent_key][key]\<close>\<close>

definition declared_tier ::
  "(string \<times> pyval) list \<Rightarrow> string \<Rightarrow> string \<Rightarrow> pyerror + pyval" where
  "declared_tier A parent key =
     bind_r (getitem (PDict A) parent) (\<lambda>scope. getitem scope key)"

text \<open>
  The two gates of a subtree: \<open>self_permission\<close> and, under a parent key,
  \<open>parent_permission\<close>.
\<close>

definition gates_open ::
  "(string \<times> pyval) list \<Rightarrow> string list \<Rightarrow> string option \<Rightarrow> string \<Rightarrow> string \<Rightarrow> bool" where
  "gates_open A U p key tk =
     ((\<exists>tier. summary_tier A tk = Inr tier \<and> in_strings tier U) \<and>
      (has_parent p \<longrightarrow> (\<exists>tier. declared_tier A (the p) key = Inr tier \<and> in_strings tier U)))"

text \<open>
  A response none of whose fields is modelled in the policy: every key of the
  dictionary, or of each dictionary in the list, translates to a policy key that is
  absent from the current scope.
\<close>

fun unmodelled_fields ::
  "(string \<times> pyval) list \<Rightarrow> (string \<times> string) list \<Rightarrow> string option \<Rightarrow> pyval \<Rightarrow> bool" where
  "unmodelled_fields A F p (PDict items) =
     list_all (\<lambda>(key, val). unmodelled A p (translate F key)) items"
| "unmodelled_fields A F p _ = True"

fun unmodelled_response ::
  "(string \<times> pyval) list \<Rightarrow> (string \<times> string) list \<Rightarrow> string option \<Rightarrow> pyval \<Rightarrow> bool" where
  "unmodelled_response A F p (PList elements) = list_all (unmodelled_fields A F p) elements"
| "unmodelled_response A F p r = unmodelled_fields A F p r"

text \<open>
  Structural consistency of the access levels dictionary, as the specification puts
  it: every scope is a dictionary that has an \<open>accessLevelSummary\<close>, and every level
  in it is one of the three recognised tiers.
\<close>

definition recognised_tier :: "pyval \<Rightarrow> bool" where
  "recognised_tier v = (v \<in> set [PStr ''PUBLIC'', PStr ''REGISTERED'', PStr ''CONTROLLED''])"

fun consistent_scope :: "pyval \<Rightarrow> bool" where
  "consistent_scope (PDict scope) =
     (distinct (map fst scope) \<and> ''accessLevelSummary'' \<in> set (map fst scope) \<and>
      list_all (\<lambda>(key, level). recognised_tier level) scope)"
| "consistent_scope _ = False"

definition consistent_policy :: "(string \<times> pyval) list \<Rightarrow> bool" where
  "consistent_policy A =
     (distinct (map fst A) \<and> list_all (\<lambda>(key, scope). consistent_scope scope) A)"

text \<open>A well-formed value: no dictionary in it repeats a key.\<close>

primrec wf_value :: "pyval \<Rightarrow> bool"
and wf_items :: "(string \<times> pyval) list \<Rightarrow> bool"
and wf_item :: "string \<times> pyval \<Rightarrow> bool"
and wf_values :: "pyval list \<Rightarrow> bool"
where
  "wf_value (PDict items) = (distinct (map fst items) \<and> wf_items items)"
| "wf_value (PList elements) = wf_values elements"
| "wf_value PNone = True"
| "wf_value (PBool b) = True"
| "wf_value (PInt i) = True"
| "wf_value (PFloat q) = True"
| "wf_value (PStr s) = True"
| "wf_items [] = True"
| "wf_items (item # rest) = (wf_item item \<and> wf_items rest)"
| "wf_item (key, val) = wf_value val"
| "wf_values [] = True"
| "wf_values (element # rest) = (wf_value element \<and> wf_values rest)"

text \<open>
  An entry of a filtered dictionary is settled when filtering it again stores it
  unchanged.
\<close>

definition settled ::
  "(string \<times> pyval) list \<Rightarrow> string list \<Rightarrow> string list \<Rightarrow> (string \<times> string) list
     \<Rightarrow> string option \<Rightarrow> string \<times> pyval \<Rightarrow> bool" where
  "settled A D U F p entry =
     (case field_action A U F p (fst entry) (snd entry) of
        Inr Keep \<Rightarrow> True
      | Inr (Descend tk) \<Rightarrow> filter_response (snd entry) A D U F (Some tk) = Inr (snd entry)
      | _ \<Rightarrow> False)"

text \<open>The variant a hit record belongs to, and the hit records of a variant.\<close>

definition variant_of :: "(string \<times> pyval) list \<Rightarrow> pyval" where
  "variant_of row = dict_get row ''variant_composite_id''"

definition hits_of :: "pyval \<Rightarrow> (string \<times> pyval) list list \<Rightarrow> (string \<times> pyval) list list" where
  "hits_of variant rows = filter (\<lambda>row. variant_of row = variant) rows"

text \<open>The values of a list that are not in \<open>seen\<close>, each once, in the order of their
  first occurrence.\<close>

fun first_seen :: "'a list \<Rightarrow> 'a list \<Rightarrow> 'a list" where
  "first_seen seen [] = []"
| "first_seen seen (x # xs) =
     (if x \<in> set seen then first_seen seen xs else x # first_seen (x # seen) xs)"

text \<open>
  The visible dataset ids that \<open>dataset_ids\<close> denotes, the dataset ids of hit records,
  and the visible ids that are equal to none of them, which is \<open>accessible_missing\<close>.
\<close>

definition visible_ids :: "string \<Rightarrow> int list" where
  "visible_ids dataset_ids =
     (case map_int (py_split dataset_ids '','') of Inr ids \<Rightarrow> ids | Inl e \<Rightarrow> [])"

definition hit_ids :: "(string \<times> pyval) list list \<Rightarrow> pyval list" where
  "hit_ids hits = map (\<lambda>row. dict_get row ''dataset_id'') hits"

definition missing_ids :: "int list \<Rightarrow> (string \<times> pyval) list list \<Rightarrow> int list" where
  "missing_ids visible hits = filter (\<lambda>x. \<not> int_in x (hit_ids hits)) visible"

text \<open>
  The size of the filtered per-dataset list of a variant, from the inclusion mode, the
  number of its hit records and the number of missing ids.
\<close>

definition reconciled_size :: "string \<Rightarrow> nat \<Rightarrow> nat \<Rightarrow> nat" where
  "reconciled_size inclusionMode hits missing =
     (if inclusionMode = ''ALL'' then hits + missing
      else if inclusionMode = ''HIT'' then hits
      else if inclusionMode = ''MISS'' then missing
      else 0)"

text \<open>
  The size that the specification gives for it, from the inclusion mode, the number of
  visible datasets and the number of hit records of the variant.
\<close>

definition expected_size :: "string \<Rightarrow> nat \<Rightarrow> nat \<Rightarrow> nat" where
  "expected_size inclusionMode visible hits =
     (if inclusionMode = ''ALL'' then visible
      else if inclusionMode = ''HIT'' then hits
      else if inclusionMode = ''MISS'' then visible - hits
      else 0)"

text \<open>
  The hit records of a variant come from pairwise different visible datasets, and no
  visible id is listed twice.
\<close>

definition one_hit_per_visible_dataset :: "int list \<Rightarrow> (string \<times> pyval) list list \<Rightarrow> bool" where
  "one_hit_per_visible_dataset visible hits =
     (distinct visible \<and> distinct (hit_ids hits) \<and>
      list_all (\<lambda>v. v \<in> set (map PInt visible)) (hit_ids hits))"

text \<open>The sizes of the per-dataset lists of the elements of a response.\<close>

definition response_sizes :: "pyval list \<Rightarrow> pyerror + nat list" where
  "response_sizes variantsFound =
     Inr (map (\<lambda>element.
            case getitem element ''datasetAlleleResponses'' of
              Inr (PList responses) \<Rightarrow> length responses
            | _ \<Rightarrow> 0) variantsFound)"

text \<open>
  Example data: collaborators that look the missing ids up in a table of three
  datasets, and the hit record of a variant in a dataset.
\<close>

definition example_env :: collaborators where
  "example_env =
     \<lparr>format = (\<lambda>v. case v of PStr s \<Rightarrow> s | _ \<Rightarrow> ''None''),
      round4 = (\<lambda>v. v),
      dataset_row = (\<lambda>i. PDict [(''stable_id'', PStr ''EGAD1''),
                                 (''access_type'', PStr ''PUBLIC'')]),
      missing_rows = (\<lambda>ids.
        map (\<lambda>i. [(''datasetId'', PInt i), (''accessType'', PStr ''PUBLIC''),
                   (''stableId'', PStr ''EGAD2'')])
          (filter (\<lambda>i. i \<in> set ids) [1, 2, 3])),
      variantAnnotations = (\<lambda>details. (PNone, PNone, PStr []))\<rparr>"

definition example_row :: "string \<Rightarrow> int \<Rightarrow> (string \<times> pyval) list" where
  "example_row variant dataset =
     [(''id'', PInt 1), (''variant_id'', PStr ''rs1''), (''variant_composite_id'', PStr variant),
      (''chromosome'', PStr ''1''), (''reference'', PStr ''A''), (''alternate'', PStr ''T''),
      (''start'', PInt 10), (''end'', PInt 11), (''variant_type'', PStr ''SNP''),
      (''dataset_id'', PInt dataset), (''variant_cnt'', PInt 3), (''call_cnt'', PInt 4),
      (''sample_cnt'', PInt 5), (''frequency'', PNone), (''num_variants'', PInt 6),
      (''matching_sample_cnt'', PInt 2)]"

section \<open>Properties of the response filter\<close>

lemma bind_r_simps [simp]:
  "bind_r (Inl e) f = Inl e" "bind_r (Inr x) f = f x"
  by (simp_all add: bind_r_def)

lemma bind_r_eq_Inr: "bind_r r f = Inr y \<longleftrightarrow> (\<exists>x. r = Inr x \<and> f x = Inr y)"
  by (cases r) simp_all

lemma map_of_dict_set: "map_of (dict_set d k v) = (map_of d)(k \<mapsto> v)"
  by (induction d k v rule: dict_set.induct) auto

lemma keys_dict_set: "fst ` set (dict_set d k v) = insert k (fst ` set d)"
  by (induction d k v rule: dict_set.induct) auto

lemma distinct_dict_set:
  "distinct (map fst d) \<Longrightarrow> distinct (map fst (dict_set d k v))"
  by (induction d k v rule: dict_set.induct) (auto simp: keys_dict_set)

lemma dict_set_fresh: "k \<notin> fst ` set d \<Longrightarrow> dict_set d k v = d @ [(k, v)]"
  by (induction d k v rule: dict_set.induct) auto

lemma field_action_container:
  assumes "is_container v = is_container v'"
  shows "field_action A U F p k v = field_action A U F p k v'"
  unfolding field_action_def assms by (rule refl)

lemma field_action_unmodelled:
  "unmodelled A p (translate F k) \<Longrightarrow> field_action A U F p k v = Inr Keep"
  by (auto simp: unmodelled_def field_action_def in_keys_def Let_def
      split: sum.splits pyval.splits)

lemma filter_item_other:
  "filter_item (k, v) acc A D U F p = Inr out \<Longrightarrow> k' \<noteq> k \<Longrightarrow> map_of out k' = map_of acc k'"
  by (auto simp: map_of_dict_set split: sum.splits action.splits)

lemma filter_items_other:
  "filter_items items acc A D U F p = Inr out \<Longrightarrow> k' \<notin> fst ` set items \<Longrightarrow>
   map_of out k' = map_of acc k'"
proof (induction items arbitrary: acc)
  case Nil
  then show ?case by simp
next
  case (Cons it rest)
  obtain k v where it: "it = (k, v)" by (cases it)
  from Cons.prems obtain acc' where
    a: "filter_item (k, v) acc A D U F p = Inr acc'" and
    b: "filter_items rest acc' A D U F p = Inr out"
    by (auto simp: it split: sum.splits simp del: filter_item.simps)
  from Cons.prems have "k' \<noteq> k" "k' \<notin> fst ` set rest" by (auto simp: it)
  with Cons.IH[OF b] filter_item_other[OF a] show ?case by simp
qed

lemma filter_items_Cons_Inr:
  assumes "filter_items ((k, v) # rest) acc A D U F p = Inr out"
  obtains acc' where "filter_item (k, v) acc A D U F p = Inr acc'"
    and "filter_items rest acc' A D U F p = Inr out"
  using assms by (auto split: sum.splits simp del: filter_item.simps)

lemma filter_item_stored:
  "filter_item (k, v) acc A D U F p = Inr acc' \<Longrightarrow>
   stored A D U F p k v (map_of acc k) (map_of acc' k)"
  by (auto simp: stored_def map_of_dict_set split: sum.splits action.splits)

lemma filter_items_stored:
  "filter_items items acc A D U F p = Inr out \<Longrightarrow> distinct (map fst items) \<Longrightarrow>
   (key, val) \<in> set items \<Longrightarrow>
   stored A D U F p key val (map_of acc key) (map_of out key)"
proof (induction items arbitrary: acc)
  case Nil
  then show ?case by simp
next
  case (Cons it rest)
  obtain k v where it: "it = (k, v)" by (cases it)
  from Cons.prems(1) obtain acc' where
    a: "filter_item (k, v) acc A D U F p = Inr acc'" and
    b: "filter_items rest acc' A D U F p = Inr out"
    unfolding it by (rule filter_items_Cons_Inr)
  from Cons.prems(2) have d: "distinct (map fst rest)" and fresh: "k \<notin> fst ` set rest"
    by (auto simp: it)
  show ?case
  proof (cases "(key, val) = (k, v)")
    case True
    have "map_of out k = map_of acc' k"
      using filter_items_other[OF b fresh] .
    with filter_item_stored[OF a] True show ?thesis by simp
  next
    case False
    with Cons.prems(3) have mem: "(key, val) \<in> set rest" by (auto simp: it)
    with fresh have "key \<noteq> k" by force
    then have "map_of acc' key = map_of acc key"
      using filter_item_other[OF a] by simp
    with Cons.IH[OF b d mem] show ?thesis by simp
  qed
qed

text \<open>
  Claim C1 (fail-open invariant). In a dictionary with distinct keys, a field whose
  translated policy key is absent both from the access levels dictionary and from the
  dictionary of the current parent scope is stored in \<open>final_dict\<close> with its value
  unchanged, whatever the user levels, the accessible datasets and the translation
  table are; the round of the loop that handles it raises nothing.
\<close>

theorem fail_open_invariant:
  assumes "filter_response (PDict items) A D U F p = Inr r"
    and "distinct (map fst items)"
    and "(key, val) \<in> set items"
    and "unmodelled A p (translate F key)"
  shows "field_action A U F p key val = Inr Keep \<and>
         (\<exists>final_dict. r = PDict final_dict \<and> map_of final_dict key = Some val)"
proof -
  have keep: "field_action A U F p key val = Inr Keep"
    using assms(4) by (rule field_action_unmodelled)
  from assms(1) obtain final_dict where
    run: "filter_items items [] A D U F p = Inr final_dict" and r: "r = PDict final_dict"
    by (auto split: sum.splits)
  from filter_items_stored[OF run assms(2) assms(3)] keep
  have "map_of final_dict key = Some val" by (simp add: stored_def)
  with keep r show ?thesis by simp
qed

lemma getitem_present:
  "k \<in> fst ` set d \<Longrightarrow> \<exists>x. getitem (PDict d) k = Inr x"
  by (cases "map_of d k") (auto simp: getitem_def map_of_eq_None_iff)

lemma field_action_subtree:
  assumes "is_container val" and "translate F key \<in> set (map fst A)"
    and "field_action A U F p key val = Inr a"
  shows "a = (if gates_open A U p key (translate F key) then Descend (translate F key) else Omit)"
  using assms
  by (auto simp: field_action_def gates_open_def summary_tier_def declared_tier_def
      specific_scope_def Let_def bind_r_eq_Inr split: if_splits)

theorem fail_open_invariant_witness:
  "filter_response (PDict [(''id'', PStr ''b1''), (''extra'', PInt 7)])
     [(''beacon'', PDict [(''accessLevelSummary'', PStr ''PUBLIC''),
                          (''id'', PStr ''CONTROLLED'')])]
     [] [''PUBLIC''] [] (Some ''beacon'') = Inr (PDict [(''extra'', PInt 7)]) \<and>
   distinct (map fst [(''id'', PStr ''b1''), (''extra'', PInt 7)]) \<and>
   unmodelled [(''beacon'', PDict [(''accessLevelSummary'', PStr ''PUBLIC''),
                                   (''id'', PStr ''CONTROLLED'')])]
     (Some ''beacon'') (translate [] ''extra'') \<and>
   field_action [(''beacon'', PDict [(''accessLevelSummary'', PStr ''PUBLIC''),
                                     (''id'', PStr ''CONTROLLED'')])]
     [''PUBLIC''] [] (Some ''beacon'') ''extra'' (PInt 7) = Inr Keep \<and>
   map_of [(''extra'', PInt 7)] ''extra'' = Some (PInt 7)"
proof -
  let ?A = "[(''beacon'', PDict [(''accessLevelSummary'', PStr ''PUBLIC''),
                                 (''id'', PStr ''CONTROLLED'')])]"
  let ?items = "[(''id'', PStr ''b1''), (''extra'', PInt 7)]"
  have h1: "filter_response (PDict ?items) ?A [] [''PUBLIC''] [] (Some ''beacon'')
              = Inr (PDict [(''extra'', PInt 7)])"
    by code_simp
  have h2: "distinct (map fst ?items)" by simp
  have h3: "(''extra'', PInt 7) \<in> set ?items" by simp
  have h4: "unmodelled ?A (Some ''beacon'') (translate [] ''extra'')" by code_simp
  from fail_open_invariant[OF h1 h2 h3 h4] h1 h2 h4 show ?thesis by simp
qed

text \<open>
  Claim C3 (subtree gating). A dictionary- or list-valued field whose translated key is
  a key of the access levels dictionary is in the filtered output if and only if the
  \<open>accessLevelSummary\<close> of its own scope is among the user levels and, under a parent
  key, so is the level that the parent scope declares for the field; the value stored
  is then the subtree filtered under the translated key, and otherwise the whole
  subtree is left out.
\<close>

theorem subtree_gating:
  assumes "filter_response (PDict items) A D U F p = Inr (PDict final_dict)"
    and "distinct (map fst items)"
    and "(key, val) \<in> set items"
    and "is_container val"
    and "translate F key \<in> set (map fst A)"
  shows "(key \<in> fst ` set final_dict \<longleftrightarrow> gates_open A U p key (translate F key)) \<and>
         (gates_open A U p key (translate F key) \<longrightarrow>
            (\<exists>val'. filter_response val A D U F (Some (translate F key)) = Inr val' \<and>
                    map_of final_dict key = Some val'))"
proof -
  from assms(1) have run: "filter_items items [] A D U F p = Inr final_dict"
    by (auto split: sum.splits)
  have st: "stored A D U F p key val None (map_of final_dict key)"
    using filter_items_stored[OF run assms(2) assms(3)] by simp
  then obtain a where a: "field_action A U F p key val = Inr a"
    by (cases "field_action A U F p key val") (simp_all add: stored_def)
  have a_eq: "a = (if gates_open A U p key (translate F key)
                   then Descend (translate F key) else Omit)"
    using assms(4) assms(5) a by (rule field_action_subtree)
  show ?thesis
  proof (cases "gates_open A U p key (translate F key)")
    case True
    with st a a_eq obtain val' where
      v: "filter_response val A D U F (Some (translate F key)) = Inr val'"
         "map_of final_dict key = Some val'"
      by (auto simp: stored_def)
    from v(2) have "key \<in> fst ` set final_dict"
      by (metis map_of_eq_None_iff option.distinct(1))
    with True v show ?thesis by simp
  next
    case False
    with st a a_eq have "map_of final_dict key = None" by (simp add: stored_def)
    then have "key \<notin> fst ` set final_dict" by (simp add: map_of_eq_None_iff)
    with False show ?thesis by simp
  qed
qed

theorem subtree_gating_witness:
  "filter_response
     (PDict [(''datasets'', PList [PDict [(''name'', PStr ''d'')]]),
             (''organization'', PDict [(''name'', PStr ''o'')])])
     [(''beacon'', PDict [(''accessLevelSummary'', PStr ''PUBLIC''),
                          (''datasets'', PStr ''PUBLIC''),
                          (''organization'', PStr ''REGISTERED'')]),
      (''beaconDataset'', PDict [(''accessLevelSummary'', PStr ''PUBLIC''),
                                 (''name'', PStr ''PUBLIC'')]),
      (''organization'', PDict [(''accessLevelSummary'', PStr ''PUBLIC''),
                                (''name'', PStr ''PUBLIC'')])]
     [] [''PUBLIC''] [(''datasets'', ''beaconDataset'')] (Some ''beacon'')
   = Inr (PDict [(''datasets'', PList [PDict [(''name'', PStr ''d'')]])]) \<and>
   gates_open
     [(''beacon'', PDict [(''accessLevelSummary'', PStr ''PUBLIC''),
                          (''datasets'', PStr ''PUBLIC''),
                          (''organization'', PStr ''REGISTERED'')]),
      (''beaconDataset'', PDict [(''accessLevelSummary'', PStr ''PUBLIC''),
                                 (''name'', PStr ''PUBLIC'')]),
      (''organization'', PDict [(''accessLevelSummary'', PStr ''PUBLIC''),
                                (''name'', PStr ''PUBLIC'')])]
     [''PUBLIC''] (Some ''beacon'') ''datasets'' ''beaconDataset'' \<and>
   ''datasets'' \<in> fst ` set [(''datasets'', PList [PDict [(''name'', PStr ''d'')]])]"
proof -
  let ?A = "[(''beacon'', PDict [(''accessLevelSummary'', PStr ''PUBLIC''),
                          (''datasets'', PStr ''PUBLIC''),
                          (''organization'', PStr ''REGISTERED'')]),
      (''beaconDataset'', PDict [(''accessLevelSummary'', PStr ''PUBLIC''),
                                 (''name'', PStr ''PUBLIC'')]),
      (''organization'', PDict [(''accessLevelSummary'', PStr ''PUBLIC''),
                                (''name'', PStr ''PUBLIC'')])]"
  let ?items = "[(''datasets'', PList [PDict [(''name'', PStr ''d'')]]),
             (''organization'', PDict [(''name'', PStr ''o'')])]"
  let ?F = "[(''datasets'', ''beaconDataset'')]"
  have h1: "filter_response (PDict ?items) ?A [] [''PUBLIC''] ?F (Some ''beacon'')
            = Inr (PDict [(''datasets'', PList [PDict [(''name'', PStr ''d'')]])])"
    by code_simp
  have h2: "distinct (map fst ?items)" by simp
  have h3: "(''datasets'', PList [PDict [(''name'', PStr ''d'')]]) \<in> set ?items" by simp
  have h4: "is_container (PList [PDict [(''name'', PStr ''d'')]])" by simp
  have h5: "translate ?F ''datasets'' \<in> set (map fst ?A)" by code_simp
  have t: "translate ?F ''datasets'' = ''beaconDataset''" by code_simp
  from subtree_gating[OF h1 h2 h3 h4 h5] h1 show ?thesis unfolding t by simp
qed

lemma filter_elements_images:
  "filter_elements es A D U F p = Inr out \<Longrightarrow>
   list_all2 (\<lambda>e e'. filter_response e A D U F p = Inr e') (filter (appended D) es) out"
proof (induction es arbitrary: out)
  case Nil
  then show ?case by simp
next
  case (Cons e es)
  show ?case
  proof (cases "appended D e")
    case True
    with Cons.prems obtain e' rest where
      "filter_response e A D U F p = Inr e'" "filter_elements es A D U F p = Inr rest"
      "out = e' # rest"
      by (auto split: sum.splits)
    with Cons.IH True show ?thesis by simp
  next
    case False
    with Cons show ?thesis by simp
  qed
qed

text \<open>
  Claim C4 (list-element dataset visibility), as amended. The filtered list consists
  of the filtered images, in order and under the same parent key as the list, of exactly
  the elements that pass the test of the loop. A dictionary element with a truthy
  \<open>datasetId\<close> passes if and only if that identity is one of the accessible datasets;
  a dictionary element whose \<open>datasetId\<close> is missing or falsy (\<open>None\<close>, empty, zero)
  always passes; an element that is not a dictionary never does.
\<close>

theorem list_element_visibility:
  assumes "filter_response (PList elements) A D U F p = Inr r"
  shows "(\<exists>filtered. r = PList filtered \<and>
            list_all2 (\<lambda>e e'. filter_response e A D U F p = Inr e')
              (filter (appended D) elements) filtered) \<and>
         (\<forall>d. truthy (dict_get d ''datasetId'') \<longrightarrow>
            (appended D (PDict d) \<longleftrightarrow> in_strings (dict_get d ''datasetId'') D)) \<and>
         (\<forall>d. \<not> truthy (dict_get d ''datasetId'') \<longrightarrow> appended D (PDict d)) \<and>
         (\<forall>e. \<not> (\<exists>d. e = PDict d) \<longrightarrow> \<not> appended D e)"
proof -
  from assms obtain filtered where
    "filter_elements elements A D U F p = Inr filtered" "r = PList filtered"
    by (auto split: sum.splits)
  then have "\<exists>filtered. r = PList filtered \<and>
            list_all2 (\<lambda>e e'. filter_response e A D U F p = Inr e')
              (filter (appended D) elements) filtered"
    using filter_elements_images by blast
  moreover have "\<forall>e. \<not> (\<exists>d. e = PDict d) \<longrightarrow> \<not> appended D e"
  proof (intro allI impI)
    fix e assume "\<not> (\<exists>d. e = PDict d)"
    then show "\<not> appended D e" by (cases e) simp_all
  qed
  ultimately show ?thesis by simp
qed

text \<open>
  The claim as stated fails for a falsy identity: an element that carries the
  \<open>datasetId\<close> field with the empty string survives although the empty string is not
  an accessible dataset.
\<close>

theorem datasetId_membership_counterexample:
  "filter_response (PList [PDict [(''datasetId'', PStr ''''), (''exists'', PBool True)]])
     [] [''EGAD1''] [''PUBLIC''] [] None
   = Inr (PList [PDict [(''datasetId'', PStr ''''), (''exists'', PBool True)]]) \<and>
   map_of [(''datasetId'', PStr ''''), (''exists'', PBool True)] ''datasetId'' = Some (PStr '''') \<and>
   \<not> in_strings (PStr '''') [''EGAD1'']"
  by code_simp

lemma filter_items_unmodelled:
  "list_all (\<lambda>(key, val). unmodelled A p (translate F key)) items \<Longrightarrow>
   \<exists>out. filter_items items acc A D U F p = Inr out"
proof (induction items arbitrary: acc)
  case Nil
  then show ?case by simp
next
  case (Cons it rest)
  obtain k v where it: "it = (k, v)" by (cases it)
  from Cons.prems have "field_action A U F p k v = Inr Keep"
    by (simp add: it field_action_unmodelled)
  moreover from Cons.prems have
    "\<exists>out. filter_items rest (dict_set acc k v) A D U F p = Inr out"
    by (intro Cons.IH) simp
  ultimately show ?case by (simp add: it)
qed

lemma filter_response_unmodelled_fields:
  "unmodelled_fields A F p (PDict items) \<Longrightarrow>
   \<exists>r'. filter_response (PDict items) A D U F p = Inr r'"
  using filter_items_unmodelled[of A p F items "[]" D U] by auto

lemma filter_elements_unmodelled:
  "list_all (unmodelled_fields A F p) es \<Longrightarrow> \<exists>out. filter_elements es A D U F p = Inr out"
proof (induction es)
  case Nil
  then show ?case by simp
next
  case (Cons e es)
  then obtain out where out: "filter_elements es A D U F p = Inr out" by auto
  show ?case
  proof (cases "appended D e")
    case True
    then obtain d where d: "e = PDict d" by (cases e) simp_all
    with Cons.prems obtain e' where "filter_response e A D U F p = Inr e'"
      using filter_response_unmodelled_fields[of A F p d D U] by auto
    with out True show ?thesis by simp
  next
    case False
    with out show ?thesis by simp
  qed
qed

text \<open>
  Claim C8 (failure policy), as amended. On a response none of whose fields is
  modelled in the policy, \<open>filter_response\<close> raises nothing, whatever the user levels
  and the accessible datasets are.
\<close>

theorem unmodelled_response_no_error:
  assumes "unmodelled_response A F p r"
  shows "\<exists>r'. filter_response r A D U F p = Inr r'"
proof (cases r)
  case (PList elements)
  with assms filter_elements_unmodelled[of A F p elements D U] show ?thesis by auto
next
  case (PDict items)
  with assms filter_response_unmodelled_fields[of A F p items D U] show ?thesis by simp
qed simp_all

text \<open>
  The claim as stated fails: with a structurally consistent policy of two scopes, a
  leaf field that is named like one scope and sits inside the other one makes line 275
  raise \<open>KeyError\<close>. There is no \<open>PolicyConfigError\<close> in the code.
\<close>

theorem consistent_policy_KeyError_counterexample:
  "consistent_policy
     [(''a'', PDict [(''accessLevelSummary'', PStr ''PUBLIC'')]),
      (''b'', PDict [(''accessLevelSummary'', PStr ''PUBLIC'')])] \<and>
   filter_response (PDict [(''a'', PDict [(''b'', PInt 5)])])
     [(''a'', PDict [(''accessLevelSummary'', PStr ''PUBLIC'')]),
      (''b'', PDict [(''accessLevelSummary'', PStr ''PUBLIC'')])]
     [] [''PUBLIC''] [] None = Inl (KeyError ''b'')"
  by code_simp

lemma set_dict_set: "set (dict_set d k v) \<subseteq> insert (k, v) (set d)"
  by (induction d k v rule: dict_set.induct) auto

lemma filter_response_container:
  "filter_response v A D U F p = Inr v' \<Longrightarrow> is_container v' \<and>
   ((\<exists>d. v' = PDict d) \<longleftrightarrow> \<not> (\<exists>es. v = PList es))"
  by (cases v) (auto split: sum.splits)

lemma field_action_Descend:
  "field_action A U F p k v = Inr (Descend tk) \<Longrightarrow> is_container v"
  by (auto simp: field_action_def Let_def bind_r_eq_Inr split: if_splits)

lemma filter_response_falsy:
  "filter_response v A D U F p = Inr v' \<Longrightarrow> is_container v \<Longrightarrow> \<not> truthy v \<Longrightarrow> \<not> truthy v'"
  by (cases v) auto

lemma filter_items_distinct:
  "filter_items items acc A D U F p = Inr out \<Longrightarrow> distinct (map fst acc) \<Longrightarrow>
   distinct (map fst out)"
proof (induction items arbitrary: acc)
  case Nil
  then show ?case by simp
next
  case (Cons it rest)
  obtain k v where it: "it = (k, v)" by (cases it)
  from Cons.prems(1) obtain acc' where
    a: "filter_item (k, v) acc A D U F p = Inr acc'" and
    b: "filter_items rest acc' A D U F p = Inr out"
    unfolding it by (rule filter_items_Cons_Inr)
  from a Cons.prems(2) have "distinct (map fst acc')"
    by (auto simp: distinct_dict_set split: sum.splits action.splits)
  with Cons.IH[OF b] show ?case .
qed

lemma filter_items_settled:
  "distinct (map fst d) \<Longrightarrow> fst ` set d \<inter> fst ` set acc = {} \<Longrightarrow>
   \<forall>entry \<in> set d. settled A D U F p entry \<Longrightarrow>
   filter_items d acc A D U F p = Inr (acc @ d)"
proof (induction d arbitrary: acc)
  case Nil
  then show ?case by simp
next
  case (Cons it rest)
  obtain k v where it: "it = (k, v)" by (cases it)
  from Cons.prems(2) have fresh: "k \<notin> fst ` set acc" by (auto simp: it)
  from Cons.prems(3) have "settled A D U F p (k, v)" by (simp add: it)
  then have a: "filter_item (k, v) acc A D U F p = Inr (acc @ [(k, v)])"
    by (auto simp: settled_def dict_set_fresh[OF fresh] split: sum.splits action.splits)
  have "filter_items rest (acc @ [(k, v)]) A D U F p = Inr ((acc @ [(k, v)]) @ rest)"
  proof (rule Cons.IH)
    show "distinct (map fst rest)" using Cons.prems(1) by simp
    show "fst ` set rest \<inter> fst ` set (acc @ [(k, v)]) = {}"
      using Cons.prems(1) Cons.prems(2) by (auto simp: it)
    show "\<forall>entry\<in>set rest. settled A D U F p entry" using Cons.prems(3) by simp
  qed
  with a show ?case by (simp add: it del: filter_item.simps)
qed

lemma appended_preserved:
  assumes run: "filter_items d [] A D U F p = Inr d'" and dist: "distinct (map fst d)"
    and app: "appended D (PDict d)"
  shows "appended D (PDict d')"
proof (cases "map_of d ''datasetId''")
  case None
  then have "''datasetId'' \<notin> fst ` set d" by (simp add: map_of_eq_None_iff)
  from filter_items_other[OF run this] have "map_of d' ''datasetId'' = None" by simp
  then show ?thesis by (simp add: dict_get_def)
next
  case (Some val)
  then have mem: "(''datasetId'', val) \<in> set d" by (rule map_of_SomeD)
  have st: "stored A D U F p ''datasetId'' val None (map_of d' ''datasetId'')"
    using filter_items_stored[OF run dist mem] by simp
  from app Some have ok: "\<not> truthy val \<or> in_strings val D" by (simp add: dict_get_def)
  from st obtain a where a: "field_action A U F p ''datasetId'' val = Inr a"
    by (cases "field_action A U F p ''datasetId'' val") (simp_all add: stored_def)
  show ?thesis
  proof (cases a)
    case Keep
    with st a Some app show ?thesis by (simp add: stored_def dict_get_def)
  next
    case Omit
    with st a show ?thesis by (simp add: stored_def dict_get_def)
  next
    case (Descend tk)
    with st a obtain val' where
      v: "filter_response val A D U F (Some tk) = Inr val'" "map_of d' ''datasetId'' = Some val'"
      by (auto simp: stored_def)
    from a Descend have c: "is_container val" using field_action_Descend by simp
    with ok have "\<not> truthy val" by (cases val) auto
    with filter_response_falsy[OF v(1) c] v(2) show ?thesis by (simp add: dict_get_def)
  qed
qed

lemma idempotent_all:
  "(wf_value v \<longrightarrow> (\<forall>p r. filter_response v A D U F p = Inr r \<longrightarrow>
      filter_response r A D U F p = Inr r)) \<and>
   (wf_values es \<longrightarrow> (\<forall>p out. filter_elements es A D U F p = Inr out \<longrightarrow>
      filter_elements out A D U F p = Inr out)) \<and>
   (wf_item it \<longrightarrow> (\<forall>p acc acc'. filter_item it acc A D U F p = Inr acc' \<longrightarrow>
      (\<forall>entry \<in> set acc. settled A D U F p entry) \<longrightarrow>
      (\<forall>entry \<in> set acc'. settled A D U F p entry))) \<and>
   (wf_items items \<longrightarrow> (\<forall>p acc out. filter_items items acc A D U F p = Inr out \<longrightarrow>
      (\<forall>entry \<in> set acc. settled A D U F p entry) \<longrightarrow>
      (\<forall>entry \<in> set out. settled A D U F p entry)))"
proof (rule filter_response_filter_items_filter_item_filter_elements.induct
    [where pyval = v and pyval_list = es and char_list_pyval_prod = it
       and char_list_pyval_prod_list = items], goal_cases)
  case (6 es)
  then show ?case by (auto split: sum.splits)
next
  case (7 items)
  show ?case
  proof (intro impI allI)
    fix p r
    assume wf: "wf_value (PDict items)"
      and run: "filter_response (PDict items) A D U F p = Inr r"
    from run obtain out where
      out: "filter_items items [] A D U F p = Inr out" and r: "r = PDict out"
      by (auto split: sum.splits)
    from wf 7 out have st: "\<forall>entry \<in> set out. settled A D U F p entry" by auto
    have "distinct (map fst out)" using filter_items_distinct[OF out] by simp
    then have "filter_items out [] A D U F p = Inr ([] @ out)"
      using st by (intro filter_items_settled) simp_all
    with r show "filter_response r A D U F p = Inr r" by simp
  qed
next
  case (9 e rest)
  show ?case
  proof (intro impI allI)
    fix p out
    assume wf: "wf_values (e # rest)"
      and run: "filter_elements (e # rest) A D U F p = Inr out"
    show "filter_elements out A D U F p = Inr out"
    proof (cases "appended D e")
      case True
      with run obtain e' out' where
        e': "filter_response e A D U F p = Inr e'" and
        out': "filter_elements rest A D U F p = Inr out'" and o: "out = e' # out'"
        by (auto split: sum.splits)
      from True obtain d where d: "e = PDict d" by (cases e) simp_all
      from e' d obtain d' where
        d': "filter_items d [] A D U F p = Inr d'" "e' = PDict d'"
        by (auto split: sum.splits)
      from wf d have "distinct (map fst d)" by simp
      from appended_preserved[OF d'(1) this] True d d'(2) have app: "appended D e'" by simp
      from wf e' 9 have 1: "filter_response e' A D U F p = Inr e'" by simp
      from wf out' 9 have 2: "filter_elements out' A D U F p = Inr out'" by simp
      from app 1 2 o show ?thesis by simp
    next
      case False
      with run wf 9 show ?thesis by simp
    qed
  qed
next
  case (10 k v)
  show ?case
  proof (intro impI allI)
    fix p acc acc'
    assume wf: "wf_item (k, v)"
      and run: "filter_item (k, v) acc A D U F p = Inr acc'"
      and st: "\<forall>entry \<in> set acc. settled A D U F p entry"
    from run obtain a where a: "field_action A U F p k v = Inr a"
      by (cases "field_action A U F p k v") simp_all
    show "\<forall>entry \<in> set acc'. settled A D U F p entry"
    proof (cases a)
      case Keep
      with a run have acc': "acc' = dict_set acc k v" by simp
      have "settled A D U F p (k, v)" using a Keep by (simp add: settled_def)
      with st set_dict_set[of acc k v] show ?thesis unfolding acc' by auto
    next
      case Omit
      with a run st show ?thesis by simp
    next
      case (Descend tk)
      with a run obtain v' where
        v': "filter_response v A D U F (Some tk) = Inr v'" and acc': "acc' = dict_set acc k v'"
        by (auto split: sum.splits)
      from wf v' 10 have idem: "filter_response v' A D U F (Some tk) = Inr v'" by simp
      have "is_container v" using a Descend field_action_Descend by simp
      moreover have "is_container v'" using filter_response_container[OF v'] by simp
      ultimately have "field_action A U F p k v' = field_action A U F p k v"
        by (intro field_action_container) simp
      with a Descend idem have "settled A D U F p (k, v')" by (simp add: settled_def)
      with st set_dict_set[of acc k v'] show ?thesis unfolding acc' by auto
    qed
  qed
next
  case (12 it rest)
  show ?case
  proof (intro impI allI)
    fix p acc out
    assume wf: "wf_items (it # rest)"
      and run: "filter_items (it # rest) acc A D U F p = Inr out"
      and st: "\<forall>entry \<in> set acc. settled A D U F p entry"
    from run obtain acc' where
      a: "filter_item it acc A D U F p = Inr acc'" and
      b: "filter_items rest acc' A D U F p = Inr out"
      by (auto split: sum.splits simp del: filter_item.simps)
    from wf a st 12 have "\<forall>entry \<in> set acc'. settled A D U F p entry" by simp
    with wf b 12 show "\<forall>entry \<in> set out. settled A D U F p entry" by simp
  qed
qed simp_all

text \<open>
  Claim C9 (idempotence). Filtering the result of a successful filtering again, with
  the same arguments, returns it unchanged.
\<close>

theorem filter_response_idempotent:
  assumes "wf_value response"
    and "filter_response response A D U F p = Inr filtered"
  shows "filter_response filtered A D U F p = Inr filtered"
  using idempotent_all[of response A D U F] assms by simp

theorem list_element_visibility_witness:
  "filter_response
     (PList [PDict [(''datasetId'', PStr ''EGAD1''), (''exists'', PBool True)],
             PDict [(''datasetId'', PStr ''EGAD2''), (''exists'', PBool True)],
             PDict [(''note'', PStr ''n'')],
             PStr ''x''])
     [] [''EGAD1''] [''PUBLIC''] [] None
   = Inr (PList [PDict [(''datasetId'', PStr ''EGAD1''), (''exists'', PBool True)],
                 PDict [(''note'', PStr ''n'')]]) \<and>
   truthy (dict_get [(''datasetId'', PStr ''EGAD2''), (''exists'', PBool True)] ''datasetId'') \<and>
   \<not> appended [''EGAD1''] (PDict [(''datasetId'', PStr ''EGAD2''), (''exists'', PBool True)]) \<and>
   \<not> truthy (dict_get [(''note'', PStr ''n'')] ''datasetId'') \<and>
   appended [''EGAD1''] (PDict [(''note'', PStr ''n'')]) \<and>
   \<not> appended [''EGAD1''] (PStr ''x'')"
proof -
  let ?es = "[PDict [(''datasetId'', PStr ''EGAD1''), (''exists'', PBool True)],
             PDict [(''datasetId'', PStr ''EGAD2''), (''exists'', PBool True)],
             PDict [(''note'', PStr ''n'')],
             PStr ''x'']"
  have h: "filter_response (PList ?es) [] [''EGAD1''] [''PUBLIC''] [] None
     = Inr (PList [PDict [(''datasetId'', PStr ''EGAD1''), (''exists'', PBool True)],
                   PDict [(''note'', PStr ''n'')]])"
    by code_simp
  have t: "truthy (dict_get [(''datasetId'', PStr ''EGAD2''), (''exists'', PBool True)] ''datasetId'')"
    by code_simp
  have f: "\<not> truthy (dict_get [(''note'', PStr ''n'')] ''datasetId'')"
    by code_simp
  have n: "\<not> in_strings (dict_get [(''datasetId'', PStr ''EGAD2''), (''exists'', PBool True)] ''datasetId'') [''EGAD1'']"
    by code_simp
  from list_element_visibility[OF h] have
    a: "\<forall>d. truthy (dict_get d ''datasetId'') \<longrightarrow>
          (appended [''EGAD1''] (PDict d) \<longleftrightarrow> in_strings (dict_get d ''datasetId'') [''EGAD1''])"
    and b: "\<forall>d. \<not> truthy (dict_get d ''datasetId'') \<longrightarrow> appended [''EGAD1''] (PDict d)"
    and c: "\<forall>e. \<not> (\<exists>d. e = PDict d) \<longrightarrow> \<not> appended [''EGAD1''] e"
    by blast+
  from a t n have 1: "\<not> appended [''EGAD1''] (PDict [(''datasetId'', PStr ''EGAD2''), (''exists'', PBool True)])"
    by blast
  from b f have 2: "appended [''EGAD1''] (PDict [(''note'', PStr ''n'')])" by blast
  from c have 3: "\<not> appended [''EGAD1''] (PStr ''x'')" by blast
  from h t f 1 2 3 show ?thesis by blast
qed

theorem unmodelled_response_no_error_witness:
  "unmodelled_response
     [(''beacon'', PDict [(''accessLevelSummary'', PStr ''PUBLIC'')])] [] None
     (PList [PDict [(''id'', PStr ''b1''), (''more'', PList [PInt 1])], PInt 3]) \<and>
   (\<exists>r'. filter_response
      (PList [PDict [(''id'', PStr ''b1''), (''more'', PList [PInt 1])], PInt 3])
      [(''beacon'', PDict [(''accessLevelSummary'', PStr ''PUBLIC'')])]
      [] [] [] None = Inr r')"
proof -
  have h: "unmodelled_response
     [(''beacon'', PDict [(''accessLevelSummary'', PStr ''PUBLIC'')])] [] None
     (PList [PDict [(''id'', PStr ''b1''), (''more'', PList [PInt 1])], PInt 3])"
    by code_simp
  from unmodelled_response_no_error[OF h, of "[]" "[]"] h show ?thesis by blast
qed

theorem filter_response_idempotent_witness:
  "wf_value
     (PDict [(''beacon'', PDict
        [(''id'', PStr ''b1''),
         (''secret'', PStr ''s''),
         (''datasets'', PList
            [PDict [(''datasetId'', PStr ''EGAD1''), (''name'', PStr ''one'')],
             PDict [(''datasetId'', PStr ''EGAD2''), (''name'', PStr ''two'')]])])]) \<and>
   filter_response
     (PDict [(''beacon'', PDict
        [(''id'', PStr ''b1''),
         (''secret'', PStr ''s''),
         (''datasets'', PList
            [PDict [(''datasetId'', PStr ''EGAD1''), (''name'', PStr ''one'')],
             PDict [(''datasetId'', PStr ''EGAD2''), (''name'', PStr ''two'')]])])])
     [(''beacon'', PDict [(''accessLevelSummary'', PStr ''PUBLIC''),
                          (''id'', PStr ''PUBLIC''),
                          (''secret'', PStr ''CONTROLLED''),
                          (''datasets'', PStr ''PUBLIC'')]),
      (''beaconDataset'', PDict [(''accessLevelSummary'', PStr ''PUBLIC''),
                                 (''datasetId'', PStr ''PUBLIC''),
                                 (''name'', PStr ''REGISTERED'')])]
     [''EGAD1''] [''PUBLIC''] [(''datasets'', ''beaconDataset'')] None
   = Inr (PDict [(''beacon'', PDict
        [(''id'', PStr ''b1''),
         (''datasets'', PList [PDict [(''datasetId'', PStr ''EGAD1'')]])])]) \<and>
   filter_response
     (PDict [(''beacon'', PDict
        [(''id'', PStr ''b1''),
         (''datasets'', PList [PDict [(''datasetId'', PStr ''EGAD1'')]])])])
     [(''beacon'', PDict [(''accessLevelSummary'', PStr ''PUBLIC''),
                          (''id'', PStr ''PUBLIC''),
                          (''secret'', PStr ''CONTROLLED''),
                          (''datasets'', PStr ''PUBLIC'')]),
      (''beaconDataset'', PDict [(''accessLevelSummary'', PStr ''PUBLIC''),
                                 (''datasetId'', PStr ''PUBLIC''),
                                 (''name'', PStr ''REGISTERED'')])]
     [''EGAD1''] [''PUBLIC''] [(''datasets'', ''beaconDataset'')] None
   = Inr (PDict [(''beacon'', PDict
        [(''id'', PStr ''b1''),
         (''datasets'', PList [PDict [(''datasetId'', PStr ''EGAD1'')]])])])"
proof -
  let ?r = "PDict [(''beacon'', PDict
        [(''id'', PStr ''b1''),
         (''secret'', PStr ''s''),
         (''datasets'', PList
            [PDict [(''datasetId'', PStr ''EGAD1''), (''name'', PStr ''one'')],
             PDict [(''datasetId'', PStr ''EGAD2''), (''name'', PStr ''two'')]])])]"
  let ?A = "[(''beacon'', PDict [(''accessLevelSummary'', PStr ''PUBLIC''),
                          (''id'', PStr ''PUBLIC''),
                          (''secret'', PStr ''CONTROLLED''),
                          (''datasets'', PStr ''PUBLIC'')]),
      (''beaconDataset'', PDict [(''accessLevelSummary'', PStr ''PUBLIC''),
                                 (''datasetId'', PStr ''PUBLIC''),
                                 (''name'', PStr ''REGISTERED'')])]"
  let ?F = "[(''datasets'', ''beaconDataset'')]"
  let ?out = "PDict [(''beacon'', PDict
        [(''id'', PStr ''b1''),
         (''datasets'', PList [PDict [(''datasetId'', PStr ''EGAD1'')]])])]"
  have w: "wf_value ?r" by code_simp
  have h: "filter_response ?r ?A [''EGAD1''] [''PUBLIC''] ?F None = Inr ?out" by code_simp
  from filter_response_idempotent[OF w h] w h show ?thesis by blast
qed

section \<open>Properties of access resolution\<close>

text \<open>
  Claim C2 (error fork of access resolution). With controlled datasets requested and
  a token without permissions (no \<open>permissions\<close> entry, or an empty one): if no
  public and no registered datasets are requested, the call raises
  \<open>BeaconUnauthorised\<close> for an unauthenticated token and \<open>BeaconForbidden\<close> for an
  authenticated one; if public datasets are requested too (and no registered ones), it
  returns the permissions \<open>["PUBLIC"]\<close> and the public datasets.
\<close>

theorem access_resolution_error_fork:
  assumes "controlled_data \<noteq> []" and "\<not> token_permissions_given token"
  shows "access_resolution token [] [] controlled_data =
           Inl (if authenticated token then BeaconForbidden else BeaconUnauthorised) \<and>
         (public_data \<noteq> [] \<longrightarrow>
            access_resolution token public_data [] controlled_data =
              Inr ([''PUBLIC''], set public_data))"
  using assms by (simp add: access_resolution_def deny_def)

theorem access_resolution_error_fork_witness:
  "access_resolution \<lparr>bona_fide_status = False, authenticated = False, permissions = None\<rparr>
     [] [] [3::int] = Inl BeaconUnauthorised \<and>
   access_resolution \<lparr>bona_fide_status = False, authenticated = True, permissions = Some []\<rparr>
     [] [] [3::int] = Inl BeaconForbidden \<and>
   access_resolution \<lparr>bona_fide_status = False, authenticated = False, permissions = None\<rparr>
     [1, 2] [] [3::int] = Inr ([''PUBLIC''], {1, 2})"
proof -
  let ?anon = "\<lparr>bona_fide_status = False, authenticated = False, permissions = (None :: int list option)\<rparr>"
  let ?user = "\<lparr>bona_fide_status = False, authenticated = True, permissions = Some ([] :: int list)\<rparr>"
  have c: "[3::int] \<noteq> []" by simp
  have p: "[1, 2::int] \<noteq> []" by simp
  have a: "\<not> token_permissions_given ?anon" by (simp add: token_permissions_given_def)
  have u: "\<not> token_permissions_given ?user" by (simp add: token_permissions_given_def)
  from access_resolution_error_fork[OF c a, of "[1, 2]"]
       access_resolution_error_fork[OF c u, of "[]"] p
  show ?thesis by simp
qed

section \<open>Properties of the dataset reconciliation\<close>

text \<open>
  Claim C10. For an inclusion mode other than ALL, NONE, HIT and MISS,
  \<open>filter_exists\<close> returns \<open>None\<close>, which is not a list.
\<close>

theorem filter_exists_unrecognised_mode:
  assumes "include_dataset \<notin> {''ALL'', ''NONE'', ''HIT'', ''MISS''}"
  shows "filter_exists include_dataset datasets = Inr PNone \<and>
         (\<forall>xs. filter_exists include_dataset datasets \<noteq> Inr (PList xs))"
  using assms by (simp add: filter_exists_def)

theorem filter_exists_unrecognised_mode_witness:
  "''all'' \<notin> {''ALL'', ''NONE'', ''HIT'', ''MISS''} \<and>
   filter_exists ''all'' [PDict [(''exists'', PBool True)]] = Inr PNone"
proof -
  have h: "''all'' \<notin> {''ALL'', ''NONE'', ''HIT'', ''MISS''}" by simp
  from filter_exists_unrecognised_mode[OF h] h show ?thesis by simp
qed

section \<open>Properties of the filter parser\<close>

lemma split_aux_skip:
  "split_aux sep (length xs) piece (xs @ rest) = split_aux sep 0 piece rest"
  by (induction xs) simp_all

lemma split_aux_nonempty: "split_aux sep skip piece s \<noteq> []"
  by (induction sep skip piece s rule: split_aux.induct) simp_all

lemma split_aux_no_sep:
  "sep \<noteq> [] \<Longrightarrow> hd sep \<notin> set xs \<Longrightarrow> split_aux sep 0 piece xs = [piece @ xs]"
proof (induction xs arbitrary: piece)
  case Nil
  then show ?case by simp
next
  case (Cons x xs)
  from Cons.prems have "take (length sep) (x # xs) \<noteq> sep"
    by (cases sep) auto
  with Cons show ?case by simp
qed

lemma split_aux_first:
  assumes "sep \<noteq> []" and "hd sep \<notin> set xs"
  shows "split_aux sep 0 piece (xs @ sep @ rest) = (piece @ xs) # split_aux sep 0 [] rest"
  using assms
proof (induction xs arbitrary: piece)
  case Nil
  then obtain c cs where sep: "sep = c # cs" by (cases sep) auto
  have "split_aux sep 0 piece (c # cs @ rest) = piece # split_aux sep (length cs) [] (cs @ rest)"
    by (simp add: sep)
  then show ?case by (simp add: sep split_aux_skip)
next
  case (Cons x xs)
  from Cons.prems have "take (length sep) (x # xs @ sep @ rest) \<noteq> sep"
    by (cases sep) auto
  with Cons show ?case by simp
qed

lemma contains_subset: "contains sub s \<Longrightarrow> set sub \<subseteq> set s"
proof (induction s)
  case Nil
  then show ?case by simp
next
  case (Cons c cs)
  show ?case
  proof (cases "take (length sub) (c # cs) = sub")
    case True
    have "set (take (length sub) (c # cs)) \<subseteq> set (c # cs)" by (rule set_take_subset)
    with True show ?thesis by simp
  next
    case False
    with Cons.prems have "contains sub cs" by simp
    from Cons.IH[OF this] show ?thesis by auto
  qed
qed

lemma contains_empty: "contains [] s"
  by (cases s) simp_all

lemma contains_prefix: "contains sub (sub @ ys)"
  by (cases sub) (simp_all add: contains_empty)

lemma contains_middle: "contains sub (xs @ sub @ ys)"
proof (induction xs)
  case Nil
  show ?case using contains_prefix by simp
next
  case (Cons x xs)
  then show ?case by simp
qed

lemma split_aux_contains:
  "sep \<noteq> [] \<Longrightarrow> contains sep s \<Longrightarrow> 2 \<le> length (split_aux sep 0 piece s)"
proof (induction s arbitrary: piece)
  case Nil
  then show ?case by simp
next
  case (Cons c cs)
  show ?case
  proof (cases "take (length sep) (c # cs) = sep")
    case True
    have "1 \<le> length (split_aux sep (length sep - 1) [] cs)"
      using split_aux_nonempty[of sep "length sep - 1" "[]" cs]
      by (cases "split_aux sep (length sep - 1) [] cs") simp_all
    with True show ?thesis by simp
  next
    case False
    with Cons show ?thesis by simp
  qed
qed

lemma py_split_no_colon:
  "CHR '':'' \<notin> set token \<Longrightarrow> py_split token '':'' = [token]"
  using split_aux_no_sep[of "'':''" token "[]"] by (simp add: py_split_def)

lemma py_split_colon:
  assumes "CHR '':'' \<notin> set ontology" and "CHR '':'' \<notin> set second"
    and "further = [] \<or> hd further = CHR '':''"
  shows "\<exists>pieces. py_split (ontology @ '':'' @ second @ further) '':''
           = ontology # second # pieces"
proof -
  have first: "split_aux '':'' 0 [] (ontology @ '':'' @ second @ further)
          = ([] @ ontology) # split_aux '':'' 0 [] (second @ further)"
    using assms(1) by (intro split_aux_first) simp_all
  show ?thesis
  proof (cases further)
    case Nil
    have "split_aux '':'' 0 [] second = [[] @ second]"
      using assms(2) by (intro split_aux_no_sep) simp_all
    with first Nil show ?thesis by (simp add: py_split_def)
  next
    case (Cons c rest)
    with assms(3) have m: "further = '':'' @ rest" by simp
    have "split_aux '':'' 0 [] (second @ '':'' @ rest)
            = ([] @ second) # split_aux '':'' 0 [] rest"
      using assms(2) by (intro split_aux_first) simp_all
    with first show ?thesis unfolding m by (simp add: py_split_def)
  qed
qed

lemma colon_decomposition:
  assumes "CHR '':'' \<in> set token"
  shows "\<exists>ontology second further.
           token = ontology @ '':'' @ second @ further \<and>
           CHR '':'' \<notin> set ontology \<and> CHR '':'' \<notin> set second \<and>
           (further = [] \<or> hd further = CHR '':'')"
proof -
  define ontology where "ontology = takeWhile (\<lambda>c. c \<noteq> CHR '':'') token"
  define rest where "rest = tl (dropWhile (\<lambda>c. c \<noteq> CHR '':'') token)"
  define second where "second = takeWhile (\<lambda>c. c \<noteq> CHR '':'') rest"
  define further where "further = dropWhile (\<lambda>c. c \<noteq> CHR '':'') rest"
  from assms have ne: "dropWhile (\<lambda>c. c \<noteq> CHR '':'') token \<noteq> []"
    by (auto simp: dropWhile_eq_Nil_conv)
  then have "hd (dropWhile (\<lambda>c. c \<noteq> CHR '':'') token) = CHR '':''"
    using hd_dropWhile[of "\<lambda>c. c \<noteq> CHR '':''" token] by simp
  with ne have "dropWhile (\<lambda>c. c \<noteq> CHR '':'') token = CHR '':'' # rest"
    unfolding rest_def by (cases "dropWhile (\<lambda>c. c \<noteq> CHR '':'') token") simp_all
  with takeWhile_dropWhile_id[of "\<lambda>c. c \<noteq> CHR '':''" token]
  have t: "token = ontology @ CHR '':'' # rest" unfolding ontology_def by simp
  have r: "rest = second @ further" by (simp add: second_def further_def)
  have o: "CHR '':'' \<notin> set ontology" unfolding ontology_def by (auto dest: set_takeWhileD)
  have s: "CHR '':'' \<notin> set second" unfolding second_def by (auto dest: set_takeWhileD)
  have m: "further = [] \<or> hd further = CHR '':''"
    unfolding further_def using hd_dropWhile[of "\<lambda>c. c \<noteq> CHR '':''" rest] by auto
  from t r have "token = ontology @ '':'' @ second @ further" by simp
  with o s m show ?thesis by blast
qed

lemma scan_operators_error:
  "scan_operators ops elements = Inl e \<Longrightarrow> e = IndexError"
  by (induction ops) (auto simp: bind_r_def index_def split: sum.splits if_splits)

lemma parse_filter_error: "parse_filter token = Inl e \<Longrightarrow> e = IndexError"
  by (auto simp: parse_filter_def Let_def bind_r_def index_def
      split: sum.splits if_splits option.splits dest: scan_operators_error)

lemma parse_filter_no_colon:
  assumes "CHR '':'' \<notin> set token"
  shows "parse_filter token = Inl IndexError"
  by (simp add: parse_filter_def py_split_no_colon[OF assms] index_def operators_def)

lemma scan_operators_find:
  assumes "[] \<notin> set ops"
  shows "scan_operators ops (ontology # remainder # pieces) =
          Inr (case find (\<lambda>operator. contains operator remainder) ops of
                 None \<Rightarrow> None
               | Some operator \<Rightarrow>
                   Some (py_split remainder operator ! 0, operator,
                         py_split remainder operator ! 1))"
  using assms
proof (induction ops)
  case Nil
  then show ?case by simp
next
  case (Cons operator ops)
  show ?case
  proof (cases "contains operator remainder")
    case True
    from Cons.prems have "operator \<noteq> []" by auto
    from split_aux_contains[OF this True, of "[]"]
    have "2 \<le> length (py_split remainder operator)" by (simp add: py_split_def)
    then have "index (py_split remainder operator) 0 = Inr (py_split remainder operator ! 0)"
      and "index (py_split remainder operator) 1 = Inr (py_split remainder operator ! 1)"
      by (auto simp: index_def)
    moreover have "index (ontology # remainder # pieces) 1 = Inr remainder" by (simp add: index_def)
    ultimately show ?thesis using True by simp
  next
    case False
    have "index (ontology # remainder # pieces) 1 = Inr remainder" by (simp add: index_def)
    with False Cons show ?thesis by simp
  qed
qed

lemma parse_filter_second_piece:
  assumes "CHR '':'' \<notin> set ontology" and "CHR '':'' \<notin> set second"
    and "further = [] \<or> hd further = CHR '':''"
  shows "parse_filter (ontology @ '':'' @ second @ further) =
          Inr (case find (\<lambda>operator. contains operator second) operators of
                 None \<Rightarrow> [ontology, second]
               | Some operator \<Rightarrow>
                   [ontology, py_split second operator ! 0, operator,
                    py_split second operator ! 1])"
proof -
  have ops: "[] \<notin> set operators" by (simp add: operators_def)
  from py_split_colon[OF assms] obtain pieces where
    e: "py_split (ontology @ '':'' @ second @ further) '':'' = ontology # second # pieces" ..
  note scan = scan_operators_find[OF ops, of ontology second pieces]
  have i: "index (ontology # second # pieces) 0 = Inr ontology"
    "index (ontology # second # pieces) 1 = Inr second"
    by (simp_all add: index_def)
  show ?thesis unfolding parse_filter_def e Let_def scan i
    by (simp split: option.splits)
qed

lemma not_contains: "c \<in> set sub \<Longrightarrow> c \<notin> set s \<Longrightarrow> \<not> contains sub s"
  using contains_subset by blast

lemma find_operator:
  assumes "operator \<in> set operators" and "operator_free term" and "operator_free val"
  shows "find (\<lambda>op. contains op (term @ operator @ val)) operators = Some operator"
proof -
  define R where "R = term @ operator @ val"
  have here: "contains operator R" unfolding R_def by (rule contains_middle)
  have chars: "set R = set term \<union> set operator \<union> set val" by (auto simp: R_def)
  from assms(2) assms(3) have
    lt: "CHR ''<'' \<notin> set term \<union> set val" and
    eq: "CHR ''='' \<notin> set term \<union> set val" and
    gt: "CHR ''>'' \<notin> set term \<union> set val"
    by (auto simp: operator_free_def)
  from assms(1) consider "operator = ''>=''" | "operator = ''<=''" | "operator = ''=''"
    | "operator = ''>''" | "operator = ''<''"
    by (auto simp: operators_def)
  then have "find (\<lambda>op. contains op R) operators = Some operator"
  proof cases
    case 1
    with here show ?thesis by (simp add: operators_def)
  next
    case 2
    have "\<not> contains ''>='' R"
      using gt 2 by (intro not_contains[of "CHR ''>''"]) (simp_all add: chars)
    with 2 here show ?thesis by (simp add: operators_def)
  next
    case 3
    have "\<not> contains ''>='' R"
      using gt 3 by (intro not_contains[of "CHR ''>''"]) (simp_all add: chars)
    moreover have "\<not> contains ''<='' R"
      using lt 3 by (intro not_contains[of "CHR ''<''"]) (simp_all add: chars)
    ultimately show ?thesis using 3 here by (simp add: operators_def)
  next
    case 4
    have "\<not> contains ''>='' R"
      using eq 4 by (intro not_contains[of "CHR ''=''"]) (simp_all add: chars)
    moreover have "\<not> contains ''<='' R"
      using eq 4 by (intro not_contains[of "CHR ''=''"]) (simp_all add: chars)
    moreover have "\<not> contains ''='' R"
      using eq 4 by (intro not_contains[of "CHR ''=''"]) (simp_all add: chars)
    ultimately show ?thesis using 4 here by (simp add: operators_def)
  next
    case 5
    have "\<not> contains ''>='' R"
      using eq 5 by (intro not_contains[of "CHR ''=''"]) (simp_all add: chars)
    moreover have "\<not> contains ''<='' R"
      using eq 5 by (intro not_contains[of "CHR ''=''"]) (simp_all add: chars)
    moreover have "\<not> contains ''='' R"
      using eq 5 by (intro not_contains[of "CHR ''=''"]) (simp_all add: chars)
    moreover have "\<not> contains ''>'' R"
      using gt 5 by (intro not_contains[of "CHR ''>''"]) (simp_all add: chars)
    ultimately show ?thesis using 5 here by (simp add: operators_def)
  qed
  then show ?thesis unfolding R_def .
qed

lemma py_split_operator:
  assumes "operator \<in> set operators" and "operator_free term" and "operator_free val"
  shows "py_split (term @ operator @ val) operator = [term, val]"
proof -
  from assms(1) have ne: "operator \<noteq> []" and
    hd: "hd operator \<in> {CHR ''<'', CHR ''='', CHR ''>''}"
    by (auto simp: operators_def)
  from hd assms(2) have t: "hd operator \<notin> set term" by (auto simp: operator_free_def)
  from hd assms(3) have v: "hd operator \<notin> set val" by (auto simp: operator_free_def)
  have "split_aux operator 0 [] (term @ operator @ val)
          = ([] @ term) # split_aux operator 0 [] val"
    using ne t by (rule split_aux_first)
  moreover have "split_aux operator 0 [] val = [[] @ val]"
    using ne v by (rule split_aux_no_sep)
  ultimately show ?thesis by (simp add: py_split_def)
qed

lemma parse_filter_comparison:
  assumes "operator \<in> set operators"
    and "operator_free term" and "operator_free val"
    and "CHR '':'' \<notin> set ontology \<union> set term \<union> set val"
    and "further = [] \<or> hd further = CHR '':''"
  shows "parse_filter (ontology @ '':'' @ term @ operator @ val @ further)
           = Inr [ontology, term, operator, val]"
proof -
  from assms(1) have "CHR '':'' \<notin> set operator" by (auto simp: operators_def)
  with assms(4) have c: "CHR '':'' \<notin> set ontology" "CHR '':'' \<notin> set (term @ operator @ val)"
    by auto
  from parse_filter_second_piece[OF c assms(5)] show ?thesis
    by (simp add: find_operator[OF assms(1-3)] py_split_operator[OF assms(1-3)])
qed

lemma parse_filters_request_fails:
  "\<exists>token \<in> set tokens. CHR '':'' \<notin> set token \<Longrightarrow>
   parse_filters_request tokens = Inl IndexError"
proof (induction tokens)
  case Nil
  then show ?case by simp
next
  case (Cons token tokens)
  show ?case
  proof (cases "parse_filter token")
    case (Inl e)
    with parse_filter_error[OF Inl] show ?thesis by simp
  next
    case (Inr final_elements)
    with parse_filter_no_colon[of token] Cons.prems
    have "\<exists>token \<in> set tokens. CHR '':'' \<notin> set token" by auto
    from Cons.IH[OF this] Inr show ?thesis by simp
  qed
qed

lemma parse_filters_request_all:
  "parse_filters_request tokens = Inr list_filters \<longleftrightarrow>
   list_all2 (\<lambda>token final_elements. parse_filter token = Inr final_elements)
     tokens list_filters"
proof (induction tokens arbitrary: list_filters)
  case Nil
  then show ?case by auto
next
  case (Cons token tokens)
  show ?case
    by (cases list_filters) (auto simp: bind_r_eq_Inr Cons.IH)
qed

text \<open>
  Claim C6 (contract of the filter parser), as amended. For every token: without a
  colon it fails, with the \<open>IndexError\<close> of \<open>filter_elements[1]\<close>, which is the only
  error the parser has. With a colon it is the ontology, a colon, a second piece
  without colon, and then nothing or a further colon and more text; the ontology is
  the first piece, and the second piece alone is searched for the first operator of
  the list that occurs in it, whatever follows a second colon being dropped. Without
  an operator the result is the two-element list of ontology and second piece; with
  one it is ontology, term, operator and value, term and value being the first two
  pieces of the second piece split at that operator. So \<open>ontology:term<op>value\<close>
  gives ontology, term, operator and value whenever term and value are free of colons
  and operator characters. The two tokens of the specification give a list of four and
  a list of two strings. A request with a token without colon fails, and the filters
  of a request are parsed one by one, in order.
\<close>

theorem parse_filters_request_contract:
  "parse_filters_request [''Insilico:coverage>=30'']
     = Inr [[''Insilico'', ''coverage'', ''>='', ''30'']] \<and>
   parse_filters_request [''Insilico:exists''] = Inr [[''Insilico'', ''exists'']] \<and>
   (CHR '':'' \<notin> set plain \<longrightarrow> parse_filter plain = Inl IndexError) \<and>
   (CHR '':'' \<in> set token \<longrightarrow>
      (\<exists>ontology second further.
         token = ontology @ '':'' @ second @ further \<and>
         CHR '':'' \<notin> set ontology \<and> CHR '':'' \<notin> set second \<and>
         (further = [] \<or> hd further = CHR '':'') \<and>
         parse_filter token =
           Inr (case find (\<lambda>operator. contains operator second) operators of
                  None \<Rightarrow> [ontology, second]
                | Some operator \<Rightarrow>
                    [ontology, py_split second operator ! 0, operator,
                     py_split second operator ! 1]))) \<and>
   (CHR '':'' \<notin> set ontology \<and> CHR '':'' \<notin> set second \<and>
    (further = [] \<or> hd further = CHR '':'') \<longrightarrow>
      parse_filter (ontology @ '':'' @ second @ further) =
        Inr (case find (\<lambda>operator. contains operator second) operators of
               None \<Rightarrow> [ontology, second]
             | Some operator \<Rightarrow>
                 [ontology, py_split second operator ! 0, operator,
                  py_split second operator ! 1])) \<and>
   (operator \<in> set operators \<and> operator_free term \<and> operator_free val \<and>
    CHR '':'' \<notin> set ontology \<union> set term \<union> set val \<and>
    (further = [] \<or> hd further = CHR '':'') \<longrightarrow>
      parse_filter (ontology @ '':'' @ term @ operator @ val @ further)
        = Inr [ontology, term, operator, val]) \<and>
   ((\<exists>token \<in> set tokens. CHR '':'' \<notin> set token) \<longrightarrow>
      parse_filters_request tokens = Inl IndexError) \<and>
   (parse_filters_request requested = Inr list_filters \<longleftrightarrow>
      list_all2 (\<lambda>token final_elements. parse_filter token = Inr final_elements)
        requested list_filters)"
proof -
  have 1: "parse_filters_request [''Insilico:coverage>=30'']
     = Inr [[''Insilico'', ''coverage'', ''>='', ''30'']]"
    by code_simp
  have 2: "parse_filters_request [''Insilico:exists''] = Inr [[''Insilico'', ''exists'']]"
    by code_simp
  have 3: "CHR '':'' \<in> set token \<longrightarrow>
      (\<exists>ontology second further.
         token = ontology @ '':'' @ second @ further \<and>
         CHR '':'' \<notin> set ontology \<and> CHR '':'' \<notin> set second \<and>
         (further = [] \<or> hd further = CHR '':'') \<and>
         parse_filter token =
           Inr (case find (\<lambda>operator. contains operator second) operators of
                  None \<Rightarrow> [ontology, second]
                | Some operator \<Rightarrow>
                    [ontology, py_split second operator ! 0, operator,
                     py_split second operator ! 1]))"
  proof
    assume "CHR '':'' \<in> set token"
    from colon_decomposition[OF this] obtain ontology second further where
      t: "token = ontology @ '':'' @ second @ further" and
      c: "CHR '':'' \<notin> set ontology" "CHR '':'' \<notin> set second"
         "further = [] \<or> hd further = CHR '':''"
      by blast
    note p = parse_filter_second_piece[OF c]
    show "\<exists>ontology second further.
         token = ontology @ '':'' @ second @ further \<and>
         CHR '':'' \<notin> set ontology \<and> CHR '':'' \<notin> set second \<and>
         (further = [] \<or> hd further = CHR '':'') \<and>
         parse_filter token =
           Inr (case find (\<lambda>operator. contains operator second) operators of
                  None \<Rightarrow> [ontology, second]
                | Some operator \<Rightarrow>
                    [ontology, py_split second operator ! 0, operator,
                     py_split second operator ! 1])"
      unfolding t
      by (intro exI[of _ ontology] exI[of _ second] exI[of _ further] conjI refl c p)
  qed
  show ?thesis
    by (intro conjI impI 1 2 3[rule_format] parse_filter_no_colon
        parse_filters_request_fails parse_filter_second_piece parse_filter_comparison
        parse_filters_request_all)
      (simp_all)
qed

text \<open>
  The claim as stated fails: of the remainder \<open>start>=10:30\<close> of a token with two
  colons the parser reads \<open>start>=10\<close> only, although the remainder splits at the
  operator into \<open>start\<close> and \<open>10:30\<close>; a token without colon fails with
  \<open>IndexError\<close>; and the plain filter gives a list of two strings.
\<close>

theorem parse_filters_request_counterexample:
  "parse_filters_request [''time:start>=10:30''] = Inr [[''time'', ''start'', ''>='', ''10'']] \<and>
   py_split ''start>=10:30'' ''>='' = [''start'', ''10:30''] \<and>
   parse_filters_request [''Insilico''] = Inl IndexError \<and>
   parse_filters_request [''Insilico:exists''] = Inr [[''Insilico'', ''exists'']]"
  by code_simp

theorem parse_filters_request_contract_witness:
  "CHR '':'' \<notin> set ''Insilico'' \<and> parse_filter ''Insilico'' = Inl IndexError \<and>
   CHR '':'' \<in> set ''HP:0001:x>=5'' \<and>
   (\<exists>ontology second further. ''HP:0001:x>=5'' = ontology @ '':'' @ second @ further \<and>
      parse_filter ''HP:0001:x>=5'' =
        Inr (case find (\<lambda>operator. contains operator second) operators of
               None \<Rightarrow> [ontology, second]
             | Some operator \<Rightarrow>
                 [ontology, py_split second operator ! 0, operator,
                  py_split second operator ! 1])) \<and>
   CHR '':'' \<notin> set ''time'' \<and> CHR '':'' \<notin> set ''noon'' \<and> hd '':30'' = CHR '':'' \<and>
   parse_filter (''time'' @ '':'' @ ''noon'' @ '':30'') = Inr [''time'', ''noon''] \<and>
   ''>='' \<in> set operators \<and> operator_free ''start'' \<and> operator_free ''10'' \<and>
   parse_filter (''time'' @ '':'' @ ''start'' @ ''>='' @ ''10'' @ '':30'')
     = Inr [''time'', ''start'', ''>='', ''10''] \<and>
   parse_filters_request [''Insilico:exists'', ''Insilico''] = Inl IndexError"
proof -
  have a: "CHR '':'' \<notin> set ''Insilico''" "CHR '':'' \<in> set ''HP:0001:x>=5''" by simp_all
  have b: "\<exists>token \<in> set [''Insilico:exists'', ''Insilico'']. CHR '':'' \<notin> set token" by simp
  have c: "''>='' \<in> set operators \<and> operator_free ''start'' \<and> operator_free ''10'' \<and>
    CHR '':'' \<notin> set ''time'' \<union> set ''start'' \<union> set ''10'' \<and>
    ('':30'' = [] \<or> hd '':30'' = CHR '':'')"
    by (simp add: operators_def operator_free_def)
  have d: "CHR '':'' \<notin> set ''time'' \<and> CHR '':'' \<notin> set ''noon'' \<and>
    ('':30'' = [] \<or> hd '':30'' = CHR '':'')"
    by simp
  have f: "find (\<lambda>operator. contains operator ''noon'') operators = None" by code_simp
  note contract = parse_filters_request_contract
    [of "''Insilico''" "''HP:0001:x>=5''" "''time''" "''noon''" "'':30''"
        "''>=''" "''start''" "''10''" "[''Insilico:exists'', ''Insilico'']" "[]" "[]"]
  from contract d
  have "parse_filter (''time'' @ '':'' @ ''noon'' @ '':30'') =
        Inr (case find (\<lambda>operator. contains operator ''noon'') operators of
               None \<Rightarrow> [''time'', ''noon'']
             | Some operator \<Rightarrow>
                 [''time'', py_split ''noon'' operator ! 0, operator,
                  py_split ''noon'' operator ! 1])"
    by blast
  then have e: "parse_filter (''time'' @ '':'' @ ''noon'' @ '':30'') = Inr [''time'', ''noon'']"
    unfolding f by simp
  from contract a b c d e show ?thesis by blast
qed

section \<open>Properties of the response assembly\<close>

lemma dict_pop_Inr:
  "dict_pop d k = Inr (v, d') \<Longrightarrow>
   map_of d k = Some v \<and> map_of d' = (map_of d)(k := None)"
proof -
  have "map_of (filter (\<lambda>entry. fst entry \<noteq> k) d) = (map_of d)(k := None)"
    by (induction d) (auto simp: fun_eq_iff)
  moreover assume "dict_pop d k = Inr (v, d')"
  ultimately show ?thesis by (auto simp: dict_pop_def split: option.splits)
qed

lemma pop_keys_other:
  "pop_keys d ks = Inr d' \<Longrightarrow> k \<notin> set ks \<Longrightarrow> map_of d' k = map_of d k"
proof (induction ks arbitrary: d)
  case Nil
  then show ?case by simp
next
  case (Cons a ks)
  from Cons.prems(1) obtain v d1 where
    p: "dict_pop d a = Inr (v, d1)" and r: "pop_keys d1 ks = Inr d'"
    by (auto simp: bind_r_eq_Inr)
  from Cons.prems(2) have "k \<noteq> a" "k \<notin> set ks" by auto
  with Cons.IH[OF r] dict_pop_Inr[OF p] show ?case by simp
qed

lemma pop_or_zero_other:
  "k \<noteq> old \<Longrightarrow> map_of (snd (pop_or_zero f d old)) k = map_of d k"
proof -
  have "map_of (filter (\<lambda>entry. fst entry \<noteq> old) d) = (map_of d)(old := None)"
    by (induction d) (auto simp: fun_eq_iff)
  moreover assume "k \<noteq> old"
  ultimately show ?thesis by (simp add: pop_or_zero_def)
qed

lemma transform_record_fields:
  assumes "transform_record env row = Inr response"
  shows "getitem response ''exists'' = Inr (PBool True) \<and>
         getitem response ''internalId'' = Inr (dict_get row ''dataset_id'')"
proof -
  from assms obtain r0 dataset_name dataset_id r2 variant_cnt r5 call_cnt r7 sample_cnt r9
      final where
    r0: "pop_keys row [''id'', ''variant_id'', ''variant_composite_id'', ''chromosome'',
           ''reference'', ''alternate'', ''start'', ''end'', ''variant_type''] = Inr r0" and
    p2: "dict_pop (dict_set r0 ''datasetId'' dataset_name) ''dataset_id'' = Inr (dataset_id, r2)" and
    p5: "dict_pop (dict_set (dict_set r2 ''internalId'' dataset_id) ''exists'' (PBool True))
           ''variant_cnt'' = Inr (variant_cnt, r5)" and
    p7: "dict_pop (dict_set r5 ''variantCount'' variant_cnt) ''call_cnt'' = Inr (call_cnt, r7)" and
    p9: "dict_pop (dict_set r7 ''callCount'' call_cnt) ''sample_cnt'' = Inr (sample_cnt, r9)" and
    fin: "response = PDict final" and
    ex: "map_of final ''exists'' = map_of r9 ''exists''" and
    ii: "map_of final ''internalId'' = map_of r9 ''internalId''"
    unfolding transform_record_def Let_def case_prod_beta
    by (auto simp: bind_r_eq_Inr map_of_dict_set pop_or_zero_other)
  from dict_pop_Inr[OF p2] pop_keys_other[OF r0, of "''dataset_id''"]
  have id: "map_of row ''dataset_id'' = Some dataset_id"
    by (simp add: map_of_dict_set)
  have m5: "map_of r5 ''exists'' = Some (PBool True)" "map_of r5 ''internalId'' = Some dataset_id"
    using dict_pop_Inr[OF p5] by (simp_all add: map_of_dict_set)
  have m7: "map_of r7 ''exists'' = Some (PBool True)" "map_of r7 ''internalId'' = Some dataset_id"
    using dict_pop_Inr[OF p7] m5 by (simp_all add: map_of_dict_set)
  have m9: "map_of r9 ''exists'' = Some (PBool True)" "map_of r9 ''internalId'' = Some dataset_id"
    using dict_pop_Inr[OF p9] m7 by (simp_all add: map_of_dict_set)
  from fin ex ii m9 id show ?thesis by (simp add: getitem_def dict_get_def)
qed

lemma first_seen_set_cong:
  "set seen = set seen' \<Longrightarrow> first_seen seen xs = first_seen seen' xs"
proof (induction xs arbitrary: seen seen')
  case Nil
  show ?case by simp
next
  case (Cons x xs)
  have "first_seen (x # seen) xs = first_seen (x # seen') xs"
    by (rule Cons.IH) (simp add: Cons.prems)
  moreover have "first_seen seen xs = first_seen seen' xs"
    by (rule Cons.IH) (rule Cons.prems)
  ultimately show ?case by (simp add: Cons.prems)
qed

lemma first_seen_set: "set (first_seen seen xs) = set xs - set seen"
proof (induction xs arbitrary: seen)
  case Nil
  show ?case by simp
next
  case (Cons x xs)
  show ?case
  proof (cases "x \<in> set seen")
    case True
    then show ?thesis using Cons.IH[of seen] by auto
  next
    case False
    then show ?thesis using Cons.IH[of "x # seen"] by auto
  qed
qed

lemma first_seen_distinct: "distinct (first_seen seen xs)"
proof (induction xs arbitrary: seen)
  case Nil
  show ?case by simp
next
  case (Cons x xs)
  show ?case using Cons.IH[of seen] Cons.IH[of "x # seen"]
    by (simp add: first_seen_set)
qed

lemma map_fst_dict_set:
  "map fst (dict_set d k v) = (if k \<in> fst ` set d then map fst d else map fst d @ [k])"
  by (induction d k v rule: dict_set.induct) auto

lemma group_records_step:
  assumes "group_records env acc (row # rest) = Inr vd"
  obtains response entry where "transform_record env row = Inr response"
    and "datasetAlleleResponses entry =
           (case map_of acc (variant_of row) of
              None \<Rightarrow> [] | Some e \<Rightarrow> datasetAlleleResponses e) @ [response]"
    and "group_records env (dict_set acc (variant_of row) entry) rest = Inr vd"
proof -
  define v where "v = dict_get row ''variant_composite_id''"
  have vo: "variant_of row = v" by (simp add: v_def variant_of_def)
  from assms obtain response where
    t: "transform_record env row = Inr response" and
    r: "(case map_of acc v of
          None \<Rightarrow>
            group_records env
              (dict_set acc v
                 \<lparr>variantDetails =
                    [(''variantId'', dict_get row ''variant_id''),
                     (''chromosome'', dict_get row ''chromosome''),
                     (''referenceBases'', dict_get row ''reference''),
                     (''alternateBases'', dict_get row ''alternate''),
                     (''variantType'', dict_get row ''variant_type''),
                     (''start'', dict_get row ''start''),
                     (''end'', dict_get row ''end'')],
                  datasetAlleleResponses = [response]\<rparr>) rest
        | Some entry \<Rightarrow>
            group_records env
              (dict_set acc v
                 (entry\<lparr>datasetAlleleResponses := datasetAlleleResponses entry @ [response]\<rparr>))
              rest) = Inr vd"
    unfolding v_def by (auto simp: bind_r_eq_Inr Let_def)
  show thesis
  proof (cases "map_of acc v")
    case None
    with r t show thesis unfolding vo[symmetric] by (intro that[of response]) simp_all
  next
    case (Some e)
    with r t show thesis unfolding vo[symmetric]
      by (intro that[of response "e\<lparr>datasetAlleleResponses := datasetAlleleResponses e @ [response]\<rparr>"])
        simp_all
  qed
qed

lemma group_records_keys:
  "group_records env acc rows = Inr vd \<Longrightarrow>
   map fst vd = map fst acc @ first_seen (map fst acc) (map variant_of rows)"
proof (induction rows arbitrary: acc)
  case Nil
  then show ?case by simp
next
  case (Cons row rest)
  from Cons.prems obtain response entry where
    step: "group_records env (dict_set acc (variant_of row) entry) rest = Inr vd"
    by (rule group_records_step)
  note IH = Cons.IH[OF step]
  show ?case
  proof (cases "variant_of row \<in> fst ` set acc")
    case True
    with IH show ?thesis by (simp add: map_fst_dict_set)
  next
    case False
    have "first_seen (map fst acc @ [variant_of row]) (map variant_of rest)
            = first_seen (variant_of row # map fst acc) (map variant_of rest)"
      by (rule first_seen_set_cong) auto
    with False IH show ?thesis by (simp add: map_fst_dict_set)
  qed
qed

lemma group_records_responses:
  "group_records env acc rows = Inr vd \<Longrightarrow> map_of vd variant = Some entry \<Longrightarrow>
   \<exists>new. datasetAlleleResponses entry =
            (case map_of acc variant of None \<Rightarrow> [] | Some e \<Rightarrow> datasetAlleleResponses e) @ new \<and>
          list_all2 (\<lambda>row response. transform_record env row = Inr response)
            (hits_of variant rows) new"
proof (induction rows arbitrary: acc)
  case Nil
  then show ?case by (simp add: hits_of_def)
next
  case (Cons row rest)
  from Cons.prems(1) obtain response e' where
    t: "transform_record env row = Inr response" and
    e': "datasetAlleleResponses e' =
           (case map_of acc (variant_of row) of
              None \<Rightarrow> [] | Some e \<Rightarrow> datasetAlleleResponses e) @ [response]" and
    step: "group_records env (dict_set acc (variant_of row) e') rest = Inr vd"
    by (rule group_records_step)
  from Cons.IH[OF step Cons.prems(2)] obtain new where
    new: "datasetAlleleResponses entry =
            (case map_of (dict_set acc (variant_of row) e') variant of
               None \<Rightarrow> [] | Some e \<Rightarrow> datasetAlleleResponses e) @ new"
         "list_all2 (\<lambda>row response. transform_record env row = Inr response)
            (hits_of variant rest) new"
    by blast
  show ?case
  proof (cases "variant_of row = variant")
    case True
    with new e' t have
      "datasetAlleleResponses entry =
         (case map_of acc variant of None \<Rightarrow> [] | Some e \<Rightarrow> datasetAlleleResponses e)
           @ (response # new)"
      "list_all2 (\<lambda>row response. transform_record env row = Inr response)
         (hits_of variant (row # rest)) (response # new)"
      by (simp_all add: map_of_dict_set hits_of_def)
    then show ?thesis by blast
  next
    case False
    with new show ?thesis by (auto simp: map_of_dict_set hits_of_def)
  qed
qed

lemma add_all_misses_each:
  "add_all_misses env ids vd = Inr vd' \<Longrightarrow>
   list_all2 (\<lambda>ve ve'. fst ve' = fst ve \<and> add_misses env ids (snd ve) = Inr (snd ve')) vd vd'"
proof (induction vd arbitrary: vd')
  case Nil
  then show ?case by simp
next
  case (Cons ve vd)
  obtain variant entry where ve: "ve = (variant, entry)" by (cases ve)
  from Cons.prems obtain entry' rest' where
    "add_misses env ids entry = Inr entry'" "add_all_misses env ids vd = Inr rest'"
    "vd' = (variant, entry') # rest'"
    by (auto simp: ve bind_r_eq_Inr)
  with Cons.IH show ?case by (simp add: ve)
qed

lemma build_response_each:
  "build_response env include_dataset vd = Inr response \<Longrightarrow>
   list_all2 (\<lambda>ve element. variant_element env include_dataset (snd ve) = Inr element)
     vd response"
proof (induction vd arbitrary: response)
  case Nil
  then show ?case by simp
next
  case (Cons ve vd)
  obtain variant entry where ve: "ve = (variant, entry)" by (cases ve)
  from Cons.prems obtain element rest where
    "variant_element env include_dataset entry = Inr element"
    "build_response env include_dataset vd = Inr rest" "response = element # rest"
    by (auto simp: ve bind_r_eq_Inr)
  with Cons.IH show ?case by (simp add: ve)
qed

lemma variant_element_fields:
  assumes "variant_element env include_dataset entry = Inr element"
  shows "\<exists>fields responses. element = PDict fields \<and>
           map fst fields = [''variantDetails'', ''datasetAlleleResponses'',
                             ''variantAnnotations'', ''variantHandover'', ''info''] \<and>
           filter_exists include_dataset (datasetAlleleResponses entry) = Inr responses \<and>
           getitem element ''datasetAlleleResponses'' = Inr responses"
  using assms unfolding variant_element_def Let_def case_prod_beta
  by (auto simp: bind_r_eq_Inr getitem_def)

lemma exists_is_all:
  "\<forall>d \<in> set ds. getitem d ''exists'' = Inr (PBool b) \<Longrightarrow>
   exists_is b ds = Inr ds \<and> exists_is (\<not> b) ds = Inr []"
  by (induction ds) auto

lemma exists_is_append:
  "exists_is b xs = Inr xs' \<Longrightarrow> exists_is b ys = Inr ys' \<Longrightarrow>
   exists_is b (xs @ ys) = Inr (xs' @ ys')"
proof (induction xs arbitrary: xs')
  case Nil
  then show ?case by simp
next
  case (Cons x xs)
  from Cons.prems(1) obtain e rest where
    e: "getitem x ''exists'' = Inr e" and r: "exists_is b xs = Inr rest"
    and x: "xs' = (if e = PBool b then x # rest else rest)"
    by (auto simp: bind_r_eq_Inr)
  from Cons.IH[OF r Cons.prems(2)] e x show ?case by simp
qed

lemma fetch_misses_exists:
  "\<forall>d \<in> set (fetch_misses env ids). getitem d ''exists'' = Inr (PBool False)"
  by (auto simp: fetch_misses_def transform_misses_def getitem_def Let_def)

lemma transformed_exists:
  "list_all2 (\<lambda>row r. transform_record env row = Inr r) hs rs \<Longrightarrow>
   \<forall>d \<in> set rs. getitem d ''exists'' = Inr (PBool True)"
  by (induction rule: list_all2_induct) (auto dest: transform_record_fields)

lemma transformed_internal_ids:
  "list_all2 (\<lambda>row r. transform_record env row = Inr r) hs rs \<Longrightarrow>
   internal_ids rs = Inr (map (\<lambda>row. dict_get row ''dataset_id'') hs)"
  by (induction rule: list_all2_induct) (auto dest: transform_record_fields)

lemma int_in_PInt: "int_in x (map PInt ids) \<longleftrightarrow> x \<in> set ids"
  by (induction ids) (auto simp: int_in_def)

lemma PInt_ids:
  "list_all (\<lambda>v. v \<in> set (map PInt visible)) vs \<Longrightarrow>
   \<exists>ids. vs = map PInt ids \<and> set ids \<subseteq> set visible"
proof (induction vs)
  case Nil
  show ?case by simp
next
  case (Cons v vs)
  then obtain ids where "vs = map PInt ids" "set ids \<subseteq> set visible" by auto
  moreover from Cons.prems obtain i where "v = PInt i" "i \<in> set visible" by auto
  ultimately have "v # vs = map PInt (i # ids) \<and> set (i # ids) \<subseteq> set visible" by simp
  then show ?case by (rule exI[of _ "i # ids"])
qed

lemma missing_length:
  assumes "distinct ids" and "set ids \<subseteq> set la" and "distinct la"
  shows "length (filter (\<lambda>x. \<not> int_in x (map PInt ids)) la) = length la - length ids"
proof -
  have eq: "(\<lambda>x. \<not> int_in x (map PInt ids)) = (\<lambda>x. x \<notin> set ids)"
    by (simp add: int_in_PInt)
  have "length (filter (\<lambda>x. x \<in> set ids) la) = card ({x. x \<in> set ids} \<inter> set la)"
    using assms(3) by (rule distinct_length_filter)
  also have "{x. x \<in> set ids} \<inter> set la = set ids" using assms(2) by auto
  also have "card (set ids) = length ids" using assms(1) by (rule distinct_card)
  finally have "length (filter (\<lambda>x. x \<in> set ids) la) = length ids" .
  moreover have "length (filter (\<lambda>x. x \<in> set ids) la)
      + length (filter (\<lambda>x. \<not> x \<in> set ids) la) = length la"
    by (rule sum_length_filter_compl)
  ultimately show ?thesis unfolding eq by simp
qed

lemma ids_le:
  assumes "distinct ids" and "set ids \<subseteq> set la"
  shows "length ids \<le> length (la :: int list)"
proof -
  have "length ids = card (set ids)" using assms(1) by (simp add: distinct_card)
  also have "\<dots> \<le> card (set la)" using assms(2) by (simp add: card_mono)
  also have "\<dots> \<le> length la" by (rule card_length)
  finally show ?thesis .
qed

lemma one_hit_sizes:
  assumes "one_hit_per_visible_dataset visible hs"
  shows "length (missing_ids visible hs) = length visible - length hs"
    and "length hs \<le> length visible"
proof -
  from assms have dv: "distinct visible" and dh: "distinct (hit_ids hs)" and
    la: "list_all (\<lambda>v. v \<in> set (map PInt visible)) (hit_ids hs)"
    by (simp_all add: one_hit_per_visible_dataset_def)
  from PInt_ids[OF la] obtain ids where
    ids: "hit_ids hs = map PInt ids" and sub: "set ids \<subseteq> set visible"
    by blast
  from dh have d: "distinct ids" unfolding ids by (simp add: distinct_map)
  have "length (hit_ids hs) = length hs" by (simp add: hit_ids_def)
  then have li: "length ids = length hs" unfolding ids by simp
  from missing_length[OF d sub dv] li
  show "length (missing_ids visible hs) = length visible - length hs"
    by (simp add: missing_ids_def ids)
  from ids_le[OF d sub] li show "length hs \<le> length visible" by simp
qed

lemma reconciled_expected:
  assumes "one_hit_per_visible_dataset visible hs"
  shows "reconciled_size mode (length hs) (length (missing_ids visible hs))
           = expected_size mode (length visible) (length hs)"
  using one_hit_sizes[OF assms] by (simp add: reconciled_size_def expected_size_def)

lemma fetch_misses_length:
  "length (missing_rows env ids) = length ids \<Longrightarrow>
   length (fetch_misses env ids) = length ids"
  by (simp add: fetch_misses_def)

lemma filter_exists_shape:
  "filter_exists include_dataset ds = Inr r \<Longrightarrow> r = PNone \<or> (\<exists>xs. r = PList xs)"
  by (auto simp: filter_exists_def bind_r_eq_Inr split: if_splits)

lemma variant_sizes:
  assumes T: "list_all2 (\<lambda>row r. transform_record env row = Inr r) hs
                (datasetAlleleResponses e)"
    and one: "length (missing_rows env (missing_ids (visible_ids dataset_ids) hs))
                = length (missing_ids (visible_ids dataset_ids) hs)"
    and mode: "include_dataset \<in> set [''ALL'', ''HIT'', ''MISS'', ''NONE'']"
    and e': "if include_dataset \<in> set [''ALL'', ''MISS'']
             then add_misses env dataset_ids e = Inr e' else e' = e"
    and el: "variant_element env include_dataset e' = Inr element"
  shows "\<exists>responses. getitem element ''datasetAlleleResponses'' = Inr (PList responses) \<and>
           length responses =
             reconciled_size include_dataset (length hs)
               (length (missing_ids (visible_ids dataset_ids) hs))"
proof -
  from variant_element_fields[OF el] obtain r where
    fe: "filter_exists include_dataset (datasetAlleleResponses e') = Inr r" and
    g: "getitem element ''datasetAlleleResponses'' = Inr r"
    by blast
  let ?hits = "datasetAlleleResponses e"
  let ?missing = "missing_ids (visible_ids dataset_ids) hs"
  let ?misses = "fetch_misses env ?missing"
  have lh: "length ?hits = length hs" using T by (simp add: list_all2_lengthD)
  have lm: "length ?misses = length ?missing"
    using one by (rule fetch_misses_length)
  have hT: "exists_is True ?hits = Inr ?hits" "exists_is False ?hits = Inr []"
    using exists_is_all[OF transformed_exists[OF T]] by simp_all
  have mF: "exists_is False ?misses = Inr ?misses"
    using exists_is_all[OF fetch_misses_exists, of env ?missing] by simp
  have with_misses: "datasetAlleleResponses e' = ?hits @ ?misses"
    if "add_misses env dataset_ids e = Inr e'"
  proof -
    from that transformed_internal_ids[OF T] obtain la where
      la: "map_int (py_split dataset_ids '','') = Inr la" and
      r: "datasetAlleleResponses e' =
            ?hits @ fetch_misses env (filter (\<lambda>x. \<not> int_in x (hit_ids hs)) la)"
      by (auto simp: add_misses_def Let_def bind_r_eq_Inr hit_ids_def)
    from la have "visible_ids dataset_ids = la" by (simp add: visible_ids_def)
    with r show ?thesis by (simp add: missing_ids_def)
  qed
  from mode consider "include_dataset = ''ALL''" | "include_dataset = ''HIT''"
    | "include_dataset = ''MISS''" | "include_dataset = ''NONE''"
    by auto
  then show ?thesis
  proof cases
    case 1
    with e' have "datasetAlleleResponses e' = ?hits @ ?misses" by (intro with_misses) simp
    with fe 1 have "r = PList (?hits @ ?misses)" by (simp add: filter_exists_def)
    with g lh lm 1 show ?thesis by (simp add: reconciled_size_def)
  next
    case 2
    with e' have "e' = e" by simp
    with fe 2 hT have "r = PList ?hits" by (simp add: filter_exists_def)
    with g lh 2 show ?thesis by (simp add: reconciled_size_def)
  next
    case 3
    with e' have "datasetAlleleResponses e' = ?hits @ ?misses" by (intro with_misses) simp
    moreover have "exists_is False (?hits @ ?misses) = Inr ([] @ ?misses)"
      using hT(2) mF by (rule exists_is_append)
    ultimately have "r = PList ?misses" using fe 3 by (simp add: filter_exists_def)
    with g lm 3 show ?thesis by (simp add: reconciled_size_def)
  next
    case 4
    with fe have "r = PList []" by (simp add: filter_exists_def)
    with g 4 show ?thesis by (simp add: reconciled_size_def)
  qed
qed

lemma get_datasets_stages:
  assumes "get_datasets env all_datasets la include_dataset = Inr variantsFound"
  obtains vd vd' where "group_records env [] all_datasets = Inr vd"
    and "list_all2 (\<lambda>ve ve'. fst ve' = fst ve \<and>
           (if include_dataset \<in> set [''ALL'', ''MISS'']
            then add_misses env la (snd ve) = Inr (snd ve') else snd ve' = snd ve)) vd vd'"
    and "list_all2 (\<lambda>ve element. variant_element env include_dataset (snd ve) = Inr element)
           vd' variantsFound"
proof -
  from assms obtain vd vd' where
    g: "group_records env [] all_datasets = Inr vd" and
    m: "(if include_dataset \<in> set [''ALL'', ''MISS'']
         then add_all_misses env la vd else Inr vd) = Inr vd'" and
    b: "build_response env include_dataset vd' = Inr variantsFound"
    by (auto simp: get_datasets_def bind_r_eq_Inr)
  have mm: "list_all2 (\<lambda>ve ve'. fst ve' = fst ve \<and>
           (if include_dataset \<in> set [''ALL'', ''MISS'']
            then add_misses env la (snd ve) = Inr (snd ve') else snd ve' = snd ve)) vd vd'"
  proof (cases "include_dataset \<in> set [''ALL'', ''MISS'']")
    case True
    with m have "add_all_misses env la vd = Inr vd'" by simp
    from add_all_misses_each[OF this] True show ?thesis
      by (auto elim: list_all2_mono)
  next
    case False
    with m have "vd' = vd" by simp
    with False show ?thesis by (simp add: list_all2_same)
  qed
  from g mm build_response_each[OF b] show thesis by (rule that)
qed

lemma group_records_distinct:
  assumes "group_records env [] all_datasets = Inr vd"
  shows "map fst vd = first_seen [] (map variant_of all_datasets)"
    and "distinct (map fst vd)"
    and "length vd = card (variant_of ` set all_datasets)"
proof -
  show k: "map fst vd = first_seen [] (map variant_of all_datasets)"
    using group_records_keys[OF assms] by simp
  show d: "distinct (map fst vd)" unfolding k by (rule first_seen_distinct)
  have "length vd = length (map fst vd)" by simp
  also have "\<dots> = card (set (map fst vd))" using distinct_card[OF d] by simp
  also have "set (map fst vd) = variant_of ` set all_datasets"
    unfolding k by (simp add: first_seen_set)
  finally show "length vd = card (variant_of ` set all_datasets)" .
qed

text \<open>
  Claim C5 (reconciliation completeness), as amended. Let the lookup of the missing
  datasets return one record per id, for the ids that are missing for a variant. Then
  \<open>get_datasets\<close> returns one element per variant, in the order in which the variants
  are first seen, and the \<open>datasetAlleleResponses\<close> of a variant has as many entries
  as the variant has hit records and missing ids together for ALL, as it has hit
  records for HIT, as it has missing ids for MISS, and none for NONE; the missing ids
  are the ids in \<open>dataset_ids\<close> that are equal to no dataset id of a hit record of the
  variant. When the hit records of the variant come from pairwise different datasets
  that are all in \<open>dataset_ids\<close>, and \<open>dataset_ids\<close> names no dataset twice, these are
  the sizes of the specification: the number of datasets in \<open>dataset_ids\<close> for ALL,
  and that number less the number of hit records for MISS.
\<close>

theorem reconciliation_completeness:
  assumes run: "get_datasets env all_datasets dataset_ids include_dataset = Inr variantsFound"
    and mode: "include_dataset \<in> set [''ALL'', ''HIT'', ''MISS'', ''NONE'']"
    and one: "\<forall>variant \<in> set (map variant_of all_datasets).
        length (missing_rows env
                  (missing_ids (visible_ids dataset_ids) (hits_of variant all_datasets)))
          = length (missing_ids (visible_ids dataset_ids) (hits_of variant all_datasets))"
  shows "list_all2
           (\<lambda>variant element. \<exists>responses.
              getitem element ''datasetAlleleResponses'' = Inr (PList responses) \<and>
              length responses =
                reconciled_size include_dataset
                  (length (hits_of variant all_datasets))
                  (length (missing_ids (visible_ids dataset_ids)
                             (hits_of variant all_datasets))) \<and>
              (one_hit_per_visible_dataset (visible_ids dataset_ids)
                 (hits_of variant all_datasets) \<longrightarrow>
               length responses =
                 expected_size include_dataset (length (visible_ids dataset_ids))
                   (length (hits_of variant all_datasets))))
           (first_seen [] (map variant_of all_datasets)) variantsFound"
proof -
  from run obtain vd vd' where
    g: "group_records env [] all_datasets = Inr vd" and
    m: "list_all2 (\<lambda>ve ve'. fst ve' = fst ve \<and>
           (if include_dataset \<in> set [''ALL'', ''MISS'']
            then add_misses env dataset_ids (snd ve) = Inr (snd ve')
            else snd ve' = snd ve)) vd vd'" and
    b: "list_all2 (\<lambda>ve element. variant_element env include_dataset (snd ve) = Inr element)
           vd' variantsFound"
    by (rule get_datasets_stages)
  note k = group_records_distinct(1)[OF g] and dk = group_records_distinct(2)[OF g]
  have l1: "length vd' = length vd" using m by (simp add: list_all2_lengthD)
  have l2: "length variantsFound = length vd'" using b by (simp add: list_all2_lengthD)
  have lk: "length (first_seen [] (map variant_of all_datasets)) = length vd"
    using k by (metis length_map)
  show ?thesis unfolding list_all2_conv_all_nth
  proof (intro conjI allI impI)
    show "length (first_seen [] (map variant_of all_datasets)) = length variantsFound"
      using lk l1 l2 by simp
  next
    fix i assume il: "i < length (first_seen [] (map variant_of all_datasets))"
    then have i: "i < length vd" using lk by simp
    define variant where "variant = first_seen [] (map variant_of all_datasets) ! i"
    have "variant \<in> set (first_seen [] (map variant_of all_datasets))"
      unfolding variant_def using il by (rule nth_mem)
    then have mem: "variant \<in> set (map variant_of all_datasets)"
      by (simp add: first_seen_set)
    have fv: "fst (vd ! i) = variant"
      using i k by (metis nth_map variant_def)
    have "vd ! i \<in> set vd" using i by simp
    then have "(variant, snd (vd ! i)) \<in> set vd" using fv by (metis prod.collapse)
    with dk have mo: "map_of vd variant = Some (snd (vd ! i))" by (rule map_of_is_SomeI)
    from group_records_responses[OF g mo]
    have T: "list_all2 (\<lambda>row r. transform_record env row = Inr r)
               (hits_of variant all_datasets) (datasetAlleleResponses (snd (vd ! i)))"
      by simp
    from one mem have o: "length (missing_rows env
                  (missing_ids (visible_ids dataset_ids) (hits_of variant all_datasets)))
          = length (missing_ids (visible_ids dataset_ids) (hits_of variant all_datasets))"
      by blast
    have e': "if include_dataset \<in> set [''ALL'', ''MISS'']
              then add_misses env dataset_ids (snd (vd ! i)) = Inr (snd (vd' ! i))
              else snd (vd' ! i) = snd (vd ! i)"
      using m i by (auto simp: list_all2_conv_all_nth)
    have el: "variant_element env include_dataset (snd (vd' ! i)) = Inr (variantsFound ! i)"
      using b i l1 by (simp add: list_all2_conv_all_nth)
    from variant_sizes[OF T o mode e' el] obtain responses where
      r: "getitem (variantsFound ! i) ''datasetAlleleResponses'' = Inr (PList responses)"
         "length responses =
            reconciled_size include_dataset (length (hits_of variant all_datasets))
              (length (missing_ids (visible_ids dataset_ids) (hits_of variant all_datasets)))"
      by blast
    have x: "one_hit_per_visible_dataset (visible_ids dataset_ids)
                 (hits_of variant all_datasets) \<longrightarrow>
             length responses =
               expected_size include_dataset (length (visible_ids dataset_ids))
                 (length (hits_of variant all_datasets))"
      using r(2) by (simp add: reconciled_expected)
    from r x
    show "\<exists>responses.
            getitem (variantsFound ! i) ''datasetAlleleResponses'' = Inr (PList responses) \<and>
            length responses =
              reconciled_size include_dataset
                (length (hits_of (first_seen [] (map variant_of all_datasets) ! i) all_datasets))
                (length (missing_ids (visible_ids dataset_ids)
                   (hits_of (first_seen [] (map variant_of all_datasets) ! i) all_datasets))) \<and>
            (one_hit_per_visible_dataset (visible_ids dataset_ids)
               (hits_of (first_seen [] (map variant_of all_datasets) ! i) all_datasets) \<longrightarrow>
             length responses =
               expected_size include_dataset (length (visible_ids dataset_ids))
                 (length (hits_of (first_seen [] (map variant_of all_datasets) ! i)
                    all_datasets)))"
      unfolding variant_def by blast
  qed
qed

text \<open>
  The claim as stated fails. With two hit records of a variant from dataset 1 and the
  datasets 1 and 2 visible, ALL gives three entries for two visible datasets; with one
  hit record from dataset 9, which is not visible, ALL gives three entries and MISS
  two, for two visible datasets and one hit record. In both cases the lookup returns
  one record per missing id.
\<close>

theorem reconciliation_completeness_counterexample:
  "bind_r (get_datasets example_env [example_row ''v1'' 1, example_row ''v1'' 1] ''1,2'' ''ALL'')
     response_sizes = Inr [3] \<and>
   bind_r (get_datasets example_env [example_row ''v1'' 9] ''1,2'' ''ALL'')
     response_sizes = Inr [3] \<and>
   bind_r (get_datasets example_env [example_row ''v1'' 9] ''1,2'' ''MISS'')
     response_sizes = Inr [2] \<and>
   visible_ids ''1,2'' = [1, 2] \<and>
   length (hits_of (PStr ''v1'') [example_row ''v1'' 1, example_row ''v1'' 1]) = 2 \<and>
   length (hits_of (PStr ''v1'') [example_row ''v1'' 9]) = 1 \<and>
   missing_ids [1, 2] [example_row ''v1'' 1, example_row ''v1'' 1] = [2] \<and>
   length (missing_rows example_env [2]) = 1 \<and>
   missing_ids [1, 2] [example_row ''v1'' 9] = [1, 2] \<and>
   length (missing_rows example_env [1, 2]) = 2"
  by code_simp

lemma exists_of_each_flags:
  "exists_of_each datasets = Inr flags \<Longrightarrow>
   list_all2 (\<lambda>dataset e. getitem dataset ''exists'' = Inr e) datasets flags"
proof (induction datasets arbitrary: flags)
  case Nil
  then show ?case by simp
next
  case (Cons d ds)
  from Cons.prems obtain e more where
    "getitem d ''exists'' = Inr e" "exists_of_each ds = Inr more" "flags = e # more"
    by (auto simp: bind_r_eq_Inr)
  with Cons.IH show ?case by simp
qed

lemma exists_of_each_truthy:
  assumes "exists_of_each datasets = Inr flags"
  shows "list_ex truthy flags \<longleftrightarrow>
         (\<exists>dataset \<in> set datasets. \<exists>e. getitem dataset ''exists'' = Inr e \<and> truthy e)"
proof -
  note l = exists_of_each_flags[OF assms]
  show ?thesis
  proof
    assume "list_ex truthy flags"
    then obtain i where i: "i < length flags" "truthy (flags ! i)"
      by (auto simp: list_ex_iff in_set_conv_nth)
    with l have "datasets ! i \<in> set datasets" "getitem (datasets ! i) ''exists'' = Inr (flags ! i)"
      by (auto simp: list_all2_conv_all_nth)
    with i show "\<exists>dataset \<in> set datasets. \<exists>e. getitem dataset ''exists'' = Inr e \<and> truthy e"
      by blast
  next
    assume "\<exists>dataset \<in> set datasets. \<exists>e. getitem dataset ''exists'' = Inr e \<and> truthy e"
    then obtain i e where i: "i < length datasets"
      "getitem (datasets ! i) ''exists'' = Inr e" "truthy e"
      by (auto simp: in_set_conv_nth)
    with l have "flags ! i = e \<and> i < length flags" by (auto simp: list_all2_conv_all_nth)
    then have fi: "flags ! i = e" and il: "i < length flags" by simp_all
    from il have "flags ! i \<in> set flags" by (rule nth_mem)
    moreover from fi i(3) have "truthy (flags ! i)" by simp
    ultimately show "list_ex truthy flags" unfolding list_ex_iff by blast
  qed
qed

lemma exists_values_truthy:
  "exists_values variantsFound = Inr flags \<Longrightarrow>
   \<forall>element \<in> set variantsFound. \<exists>r. getitem element ''datasetAlleleResponses'' = Inr r \<and>
      (r = PNone \<or> (\<exists>xs. r = PList xs)) \<Longrightarrow>
   list_ex truthy flags \<longleftrightarrow>
     (\<exists>element \<in> set variantsFound. \<exists>datasets.
        getitem element ''datasetAlleleResponses'' = Inr (PList datasets) \<and>
        (\<exists>dataset \<in> set datasets. \<exists>e. getitem dataset ''exists'' = Inr e \<and> truthy e))"
proof (induction variantsFound arbitrary: flags)
  case Nil
  then show ?case by simp
next
  case (Cons v vs)
  from Cons.prems(1) obtain r datasets fl more where
    r: "getitem v ''datasetAlleleResponses'' = Inr r" and
    it: "iterate r = Inr datasets" and
    fl: "exists_of_each datasets = Inr fl" and
    more: "exists_values vs = Inr more" and
    flags: "flags = fl @ more"
    by (auto simp: bind_r_eq_Inr)
  from Cons.prems(2) r it have rl: "r = PList datasets"
    by (auto simp: iterate_def)
  have IH: "list_ex truthy more \<longleftrightarrow>
     (\<exists>element \<in> set vs. \<exists>datasets.
        getitem element ''datasetAlleleResponses'' = Inr (PList datasets) \<and>
        (\<exists>dataset \<in> set datasets. \<exists>e. getitem dataset ''exists'' = Inr e \<and> truthy e))"
    using Cons.IH[OF more] Cons.prems(2) by simp
  let ?Q = "\<lambda>datasets. \<exists>dataset \<in> set datasets. \<exists>e.
                getitem dataset ''exists'' = Inr e \<and> truthy e"
  let ?P = "\<lambda>element. \<exists>datasets.
                getitem element ''datasetAlleleResponses'' = Inr (PList datasets) \<and> ?Q datasets"
  have a: "list_ex truthy flags \<longleftrightarrow> list_ex truthy fl \<or> list_ex truthy more"
    unfolding flags list_ex_iff by auto
  have b: "list_ex truthy fl \<longleftrightarrow> ?Q datasets"
    using fl by (rule exists_of_each_truthy)
  have c: "?P v \<longleftrightarrow> ?Q datasets"
    unfolding r rl by simp
  have d: "(\<exists>element \<in> set (v # vs). ?P element) \<longleftrightarrow> ?P v \<or> (\<exists>element \<in> set vs. ?P element)"
    by simp
  show ?case unfolding d a b c IH ..
qed

lemma get_datasets_elements:
  assumes "get_datasets env all_datasets la include_dataset = Inr variantsFound"
    and "element \<in> set variantsFound"
  shows "\<exists>fields r. element = PDict fields \<and>
           map fst fields = [''variantDetails'', ''datasetAlleleResponses'',
                             ''variantAnnotations'', ''variantHandover'', ''info''] \<and>
           getitem element ''datasetAlleleResponses'' = Inr r \<and>
           (r = PNone \<or> (\<exists>xs. r = PList xs)) \<and>
           (include_dataset = ''NONE'' \<longrightarrow> r = PList [])"
proof -
  from assms(1) obtain vd' :: "(pyval \<times> variant_entry) list" where
    b: "list_all2 (\<lambda>ve element. variant_element env include_dataset (snd ve) = Inr element)
           vd' variantsFound"
    by (rule get_datasets_stages)
  from assms(2) obtain i where i: "i < length variantsFound" and ei: "variantsFound ! i = element"
    unfolding in_set_conv_nth by blast
  from b i have "variant_element env include_dataset (snd (vd' ! i)) = Inr (variantsFound ! i)"
    by (rule list_all2_nthD2)
  then have ve: "variant_element env include_dataset (snd (vd' ! i)) = Inr element"
    unfolding ei .
  from variant_element_fields[OF ve] obtain fields r where
    f1: "element = PDict fields" and
    f2: "map fst fields = [''variantDetails'', ''datasetAlleleResponses'',
                          ''variantAnnotations'', ''variantHandover'', ''info'']" and
    f3: "filter_exists include_dataset (datasetAlleleResponses (snd (vd' ! i))) = Inr r" and
    f4: "getitem element ''datasetAlleleResponses'' = Inr r"
    by (elim exE conjE)
  have n: "include_dataset = ''NONE'' \<longrightarrow> r = PList []"
  proof
    assume "include_dataset = ''NONE''"
    with f3 show "r = PList []" by (simp add: filter_exists_def)
  qed
  note sh = filter_exists_shape[OF f3]
  show ?thesis
    by (intro exI[of _ fields] exI[of _ r] conjI f1 f2 f4 sh n)
qed

lemma get_datasets_length:
  assumes "get_datasets env all_datasets la include_dataset = Inr variantsFound"
  shows "length variantsFound = card (variant_of ` set all_datasets)"
proof -
  from assms obtain vd vd' where
    g: "group_records env [] all_datasets = Inr vd" and
    m: "list_all2 (\<lambda>ve ve'. fst ve' = fst ve \<and>
           (if include_dataset \<in> set [''ALL'', ''MISS'']
            then add_misses env la (snd ve) = Inr (snd ve') else snd ve' = snd ve)) vd vd'" and
    b: "list_all2 (\<lambda>ve element. variant_element env include_dataset (snd ve) = Inr element)
           vd' variantsFound"
    by (rule get_datasets_stages)
  from m b have "length variantsFound = length vd" by (simp add: list_all2_lengthD)
  with group_records_distinct(3)[OF g] show ?thesis by simp
qed

text \<open>
  Claim C7 (existence reporting), as amended. The assembled response has one \<open>exists\<close>
  flag, for the response as a whole: it is true if and only if some entry of the
  filtered \<open>datasetAlleleResponses\<close> of some variant has a true \<open>exists\<close>. The
  element of a variant has the fields \<open>variantDetails\<close>, \<open>datasetAlleleResponses\<close>,
  \<open>variantAnnotations\<close>, \<open>variantHandover\<close> and \<open>info\<close>, and so no \<open>exists\<close>
  flag of its own. Every variant of the hit records is reported; with the inclusion
  mode NONE its \<open>datasetAlleleResponses\<close> is empty and the flag of the response is
  false.
\<close>

theorem response_exists_flag:
  assumes run: "get_datasets env all_datasets dataset_ids include_dataset = Inr variantsFound"
    and resp: "beacon_response beaconId apiVersion processed_request variantsFound
                 = Inr response"
  shows "(\<forall>element \<in> set variantsFound. \<exists>fields. element = PDict fields \<and>
            map fst fields = [''variantDetails'', ''datasetAlleleResponses'',
                              ''variantAnnotations'', ''variantHandover'', ''info'']) \<and>
         getitem response ''exists'' =
           Inr (PBool (\<exists>element \<in> set variantsFound. \<exists>datasets.
                  getitem element ''datasetAlleleResponses'' = Inr (PList datasets) \<and>
                  (\<exists>dataset \<in> set datasets. \<exists>e.
                     getitem dataset ''exists'' = Inr e \<and> truthy e))) \<and>
         length variantsFound = card (variant_of ` set all_datasets) \<and>
         (include_dataset = ''NONE'' \<longrightarrow>
            (\<forall>element \<in> set variantsFound.
               getitem element ''datasetAlleleResponses'' = Inr (PList [])) \<and>
            getitem response ''exists'' = Inr (PBool False))"
proof -
  note el = get_datasets_elements[OF run]
  have 1: "\<forall>element \<in> set variantsFound. \<exists>fields. element = PDict fields \<and>
            map fst fields = [''variantDetails'', ''datasetAlleleResponses'',
                              ''variantAnnotations'', ''variantHandover'', ''info'']"
    using el by blast
  from resp obtain flags where
    fl: "exists_values variantsFound = Inr flags" and
    ex: "getitem response ''exists'' = Inr (PBool (list_ex truthy flags))"
    by (auto simp: beacon_response_def bind_r_eq_Inr getitem_def)
  have shape: "\<forall>element \<in> set variantsFound.
      \<exists>r. getitem element ''datasetAlleleResponses'' = Inr r \<and> (r = PNone \<or> (\<exists>xs. r = PList xs))"
    using el by blast
  note iff = exists_values_truthy[OF fl shape]
  have 2: "getitem response ''exists'' =
           Inr (PBool (\<exists>element \<in> set variantsFound. \<exists>datasets.
                  getitem element ''datasetAlleleResponses'' = Inr (PList datasets) \<and>
                  (\<exists>dataset \<in> set datasets. \<exists>e.
                     getitem dataset ''exists'' = Inr e \<and> truthy e)))"
    using ex iff by simp
  have 3: "length variantsFound = card (variant_of ` set all_datasets)"
    using run by (rule get_datasets_length)
  have 4: "include_dataset = ''NONE'' \<longrightarrow>
            (\<forall>element \<in> set variantsFound.
               getitem element ''datasetAlleleResponses'' = Inr (PList [])) \<and>
            getitem response ''exists'' = Inr (PBool False)"
  proof
    assume n: "include_dataset = ''NONE''"
    have a: "\<forall>element \<in> set variantsFound.
               getitem element ''datasetAlleleResponses'' = Inr (PList [])"
      using el n by blast
    then have "\<not> (\<exists>element \<in> set variantsFound. \<exists>datasets.
                  getitem element ''datasetAlleleResponses'' = Inr (PList datasets) \<and>
                  (\<exists>dataset \<in> set datasets. \<exists>e.
                     getitem dataset ''exists'' = Inr e \<and> truthy e))"
      by auto
    with 2 a show "(\<forall>element \<in> set variantsFound.
               getitem element ''datasetAlleleResponses'' = Inr (PList [])) \<and>
            getitem response ''exists'' = Inr (PBool False)"
      by simp
  qed
  from 1 2 3 4 show ?thesis by blast
qed

text \<open>
  The claim as stated fails: the element that is reported for a variant has no
  \<open>exists\<close> field, here for one hit record and the inclusion mode NONE.
\<close>

theorem variant_exists_counterexample:
  "get_datasets example_env [example_row ''v1'' 1] ''1'' ''NONE'' =
     Inr [PDict
       [(''variantDetails'', PDict
           [(''variantId'', PStr ''rs1''), (''chromosome'', PStr ''1''),
            (''referenceBases'', PStr ''A''), (''alternateBases'', PStr ''T''),
            (''variantType'', PStr ''SNP''), (''start'', PInt 10), (''end'', PInt 11)]),
        (''datasetAlleleResponses'', PList []),
        (''variantAnnotations'', PDict [(''cellBase'', PNone), (''dbSNP'', PStr [])]),
        (''variantHandover'', PStr []),
        (''info'', PDict [])]] \<and>
   getitem (PDict
       [(''variantDetails'', PDict
           [(''variantId'', PStr ''rs1''), (''chromosome'', PStr ''1''),
            (''referenceBases'', PStr ''A''), (''alternateBases'', PStr ''T''),
            (''variantType'', PStr ''SNP''), (''start'', PInt 10), (''end'', PInt 11)]),
        (''datasetAlleleResponses'', PList []),
        (''variantAnnotations'', PDict [(''cellBase'', PNone), (''dbSNP'', PStr [])]),
        (''variantHandover'', PStr []),
        (''info'', PDict [])]) ''exists'' = Inl (KeyError ''exists'')"
  by code_simp

theorem reconciliation_completeness_witness:
  "\<exists>variantsFound.
     get_datasets example_env
       [example_row ''v1'' 1, example_row ''v2'' 2, example_row ''v1'' 3] ''1,2,3'' ''MISS''
       = Inr variantsFound \<and>
     list_all2
       (\<lambda>variant element. \<exists>responses.
          getitem element ''datasetAlleleResponses'' = Inr (PList responses) \<and>
          one_hit_per_visible_dataset (visible_ids ''1,2,3'')
            (hits_of variant
               [example_row ''v1'' 1, example_row ''v2'' 2, example_row ''v1'' 3]) \<and>
          length responses =
            expected_size ''MISS'' (length (visible_ids ''1,2,3''))
              (length (hits_of variant
                 [example_row ''v1'' 1, example_row ''v2'' 2, example_row ''v1'' 3])))
       (first_seen []
          (map variant_of [example_row ''v1'' 1, example_row ''v2'' 2, example_row ''v1'' 3]))
       variantsFound"
proof -
  let ?rows = "[example_row ''v1'' 1, example_row ''v2'' 2, example_row ''v1'' 3]"
  have "\<not> isl (get_datasets example_env ?rows ''1,2,3'' ''MISS'')" by code_simp
  then obtain variantsFound where
    run: "get_datasets example_env ?rows ''1,2,3'' ''MISS'' = Inr variantsFound"
    by (cases "get_datasets example_env ?rows ''1,2,3'' ''MISS''") simp_all
  have mode: "''MISS'' \<in> set [''ALL'', ''HIT'', ''MISS'', ''NONE'']" by simp
  have one: "\<forall>variant \<in> set (map variant_of ?rows).
        length (missing_rows example_env
                  (missing_ids (visible_ids ''1,2,3'') (hits_of variant ?rows)))
          = length (missing_ids (visible_ids ''1,2,3'') (hits_of variant ?rows))"
    by code_simp
  have hits: "\<forall>variant \<in> set (first_seen [] (map variant_of ?rows)).
        one_hit_per_visible_dataset (visible_ids ''1,2,3'') (hits_of variant ?rows)"
    by code_simp
  from reconciliation_completeness[OF run mode one]
  have "list_all2
       (\<lambda>variant element. \<exists>responses.
          getitem element ''datasetAlleleResponses'' = Inr (PList responses) \<and>
          one_hit_per_visible_dataset (visible_ids ''1,2,3'') (hits_of variant ?rows) \<and>
          length responses =
            expected_size ''MISS'' (length (visible_ids ''1,2,3''))
              (length (hits_of variant ?rows)))
       (first_seen [] (map variant_of ?rows)) variantsFound"
  proof (rule list.rel_mono_strong)
    fix variant element
    assume "variant \<in> set (first_seen [] (map variant_of ?rows))"
    with hits have "one_hit_per_visible_dataset (visible_ids ''1,2,3'') (hits_of variant ?rows)"
      by blast
    moreover assume "\<exists>responses.
          getitem element ''datasetAlleleResponses'' = Inr (PList responses) \<and>
          length responses =
            reconciled_size ''MISS'' (length (hits_of variant ?rows))
              (length (missing_ids (visible_ids ''1,2,3'') (hits_of variant ?rows))) \<and>
          (one_hit_per_visible_dataset (visible_ids ''1,2,3'') (hits_of variant ?rows) \<longrightarrow>
           length responses =
             expected_size ''MISS'' (length (visible_ids ''1,2,3''))
               (length (hits_of variant ?rows)))"
    ultimately show "\<exists>responses.
          getitem element ''datasetAlleleResponses'' = Inr (PList responses) \<and>
          one_hit_per_visible_dataset (visible_ids ''1,2,3'') (hits_of variant ?rows) \<and>
          length responses =
            expected_size ''MISS'' (length (visible_ids ''1,2,3''))
              (length (hits_of variant ?rows))"
      by blast
  qed
  with run show ?thesis by blast
qed

theorem response_exists_flag_witness:
  "\<exists>variantsFound response.
     get_datasets example_env [example_row ''v1'' 1] ''1'' ''NONE'' = Inr variantsFound \<and>
     beacon_response (PStr ''org.beacon'') (PStr ''v1'') PNone variantsFound = Inr response \<and>
     length variantsFound = card (variant_of ` set [example_row ''v1'' 1]) \<and>
     getitem response ''exists'' = Inr (PBool False)"
proof -
  let ?rows = "[example_row ''v1'' 1]"
  have "\<not> isl (get_datasets example_env ?rows ''1'' ''NONE'')" by code_simp
  then obtain variantsFound where
    run: "get_datasets example_env ?rows ''1'' ''NONE'' = Inr variantsFound"
    by (cases "get_datasets example_env ?rows ''1'' ''NONE''") simp_all
  have "\<not> isl (bind_r (get_datasets example_env ?rows ''1'' ''NONE'')
                 (beacon_response (PStr ''org.beacon'') (PStr ''v1'') PNone))"
    by code_simp
  with run obtain response where
    resp: "beacon_response (PStr ''org.beacon'') (PStr ''v1'') PNone variantsFound = Inr response"
    by (cases "beacon_response (PStr ''org.beacon'') (PStr ''v1'') PNone variantsFound") simp_all
  from response_exists_flag[OF run resp] run resp show ?thesis by blast
qed

end
